theory Spec2Isabelle
  imports Main "HOL-Library.Sublist"
begin

section \<open>Go strings and the functions of package strings the code calls\<close>

text \<open>
  A Go string is a sequence of bytes; it is modelled as a \<^typ>\<open>string\<close>, whose
  characters are the 256 byte values. The library functions below are not part of the
  repository: each is modelled from its documented behaviour, on bytes.
\<close>

abbreviation newline :: char where
  "newline \<equiv> CHR 0x0A"

abbreviation backtick :: char where
  "backtick \<equiv> CHR 0x60"

abbreviation tilde :: char where
  "tilde \<equiv> CHR 0x7E"

text \<open>The three string constants of the source: the fence, the spoiler opener, the tilde fence.\<close>

abbreviation fence :: string where
  "fence \<equiv> [backtick, backtick, backtick]"

abbreviation fence_spoiler :: string where
  "fence_spoiler \<equiv> fence @ ''spoiler''"

abbreviation tildes :: string where
  "tildes \<equiv> [tilde, tilde, tilde]"

text \<open>
  \<^verbatim>\<open>strings.Split(s, "\n")\<close>, for a separator of one byte: the pieces between the
  separators, one more piece than there are separators; the empty string gives one empty
  piece.
\<close>

fun strings_Split :: "string \<Rightarrow> char \<Rightarrow> string list" where
  "strings_Split [] sep = [[]]"
| "strings_Split (c # cs) sep =
     (if c = sep then [] # strings_Split cs sep
      else (case strings_Split cs sep of
              [] \<Rightarrow> [[c]]
            | l # ls \<Rightarrow> (c # l) # ls))"

text \<open>\<^verbatim>\<open>strings.HasPrefix(s, prefix)\<close> and \<^verbatim>\<open>strings.TrimPrefix(s, prefix)\<close>.\<close>

definition strings_HasPrefix :: "string \<Rightarrow> string \<Rightarrow> bool" where
  "strings_HasPrefix s p = (take (length p) s = p)"

definition strings_TrimPrefix :: "string \<Rightarrow> string \<Rightarrow> string" where
  "strings_TrimPrefix s p = (if strings_HasPrefix s p then drop (length p) s else s)"

text \<open>
  \<^verbatim>\<open>strings.TrimSpace(s)\<close> removes the leading and the trailing white space "as defined
  by Unicode". The string is UTF-8: a white space character is one of the byte sequences
  below (the encodings of U+0009..U+000D, U+0020, U+0085, U+00A0, U+1680,
  U+2000..U+200A, U+2028, U+2029, U+202F, U+205F, U+3000). An encoding of one code point
  is never a proper prefix or suffix of another, and a byte sequence that is not valid
  UTF-8 decodes to U+FFFD, which is not white space; so trimming removes these sequences
  from the front, then from the back, until none is left.
\<close>

definition space_encodings :: "string list" where
  "space_encodings =
    [[CHR 0x09], [CHR 0x0A], [CHR 0x0B], [CHR 0x0C], [CHR 0x0D], [CHR 0x20],
     [CHR 0xC2, CHR 0x85], [CHR 0xC2, CHR 0xA0],
     [CHR 0xE1, CHR 0x9A, CHR 0x80],
     [CHR 0xE2, CHR 0x80, CHR 0x80], [CHR 0xE2, CHR 0x80, CHR 0x81],
     [CHR 0xE2, CHR 0x80, CHR 0x82], [CHR 0xE2, CHR 0x80, CHR 0x83],
     [CHR 0xE2, CHR 0x80, CHR 0x84], [CHR 0xE2, CHR 0x80, CHR 0x85],
     [CHR 0xE2, CHR 0x80, CHR 0x86], [CHR 0xE2, CHR 0x80, CHR 0x87],
     [CHR 0xE2, CHR 0x80, CHR 0x88], [CHR 0xE2, CHR 0x80, CHR 0x89],
     [CHR 0xE2, CHR 0x80, CHR 0x8A],
     [CHR 0xE2, CHR 0x80, CHR 0xA8], [CHR 0xE2, CHR 0x80, CHR 0xA9],
     [CHR 0xE2, CHR 0x80, CHR 0xAF],
     [CHR 0xE2, CHR 0x81, CHR 0x9F],
     [CHR 0xE3, CHR 0x80, CHR 0x80]]"

text \<open>The length of the white space character a string starts with, 0 when it starts with none.\<close>

fun space_width :: "string list \<Rightarrow> string \<Rightarrow> nat" where
  "space_width [] s = 0"
| "space_width (e # es) s =
     (if e = [] then space_width es s
      else if take (length e) s = e then length e
      else space_width es s)"

function trim_left :: "string list \<Rightarrow> string \<Rightarrow> string" where
  "trim_left es s =
     (if space_width es s = 0 then s else trim_left es (drop (space_width es s) s))"
  by pat_completeness auto

termination trim_left
proof (relation "measure (\<lambda>(es, s). length s)")
  show "wf (measure (\<lambda>(es, s). length s))" by simp
next
  fix es :: "string list" and s :: string
  assume nz: "space_width es s \<noteq> 0"
  have "space_width es s \<le> length s"
  proof (induction es)
    case Nil
    show ?case by simp
  next
    case (Cons e es)
    have "length e \<le> length s" if "take (length e) s = e"
    proof -
      have "length (take (length e) s) = length e" using that by simp
      then show ?thesis by simp
    qed
    with Cons show ?case by simp
  qed
  with nz show "((es, drop (space_width es s) s), (es, s)) \<in> measure (\<lambda>(es, s). length s)"
    by simp
qed

declare trim_left.simps [simp del]

definition trim_right :: "string list \<Rightarrow> string \<Rightarrow> string" where
  "trim_right es s = rev (trim_left (map rev es) (rev s))"

definition strings_TrimSpace :: "string \<Rightarrow> string" where
  "strings_TrimSpace s = trim_right space_encodings (trim_left space_encodings s)"

text \<open>
  \<^verbatim>\<open>strings.Contains(s, substr)\<close>, and \<^verbatim>\<open>strings.ReplaceAll(s, old, new)\<close> for a
  non-empty \<open>old\<close>: the occurrences of \<open>old\<close> are replaced from left to right, and the
  search goes on after each replaced occurrence (they do not overlap). The repository
  calls it with the fence for \<open>old\<close> only; what Go does for an empty \<open>old\<close> is left
  out, and the function is the identity there.
\<close>

fun strings_Contains :: "string \<Rightarrow> string \<Rightarrow> bool" where
  "strings_Contains [] sub = (sub = [])"
| "strings_Contains (c # cs) sub =
     (if strings_HasPrefix (c # cs) sub then True else strings_Contains cs sub)"

function strings_ReplaceAll :: "string \<Rightarrow> string \<Rightarrow> string \<Rightarrow> string" where
  "strings_ReplaceAll s old new =
     (if old = [] \<or> s = [] then s
      else if strings_HasPrefix s old
        then new @ strings_ReplaceAll (drop (length old) s) old new
      else hd s # strings_ReplaceAll (tl s) old new)"
  by pat_completeness auto
termination
  by (relation "measure (\<lambda>(s, old, new). length s)") auto

declare strings_ReplaceAll.simps [simp del]

section \<open>The escaper (\<^verbatim>\<open>zlmd/escaper.go\<close>)\<close>

text \<open>
  The only statements of the escaper that can panic are the index expressions
  \<^verbatim>\<open>lines[0]\<close>, \<^verbatim>\<open>lines[numLines-1]\<close> and \<^verbatim>\<open>lines[i]\<close>. An index expression is
  modelled as a checked read, and a function that can reach one returns an
  \<^typ>\<open>'a option\<close>, where \<open>None\<close> is the run-time panic.
\<close>

definition index :: "'a list \<Rightarrow> int \<Rightarrow> 'a option" where
  "index xs i = (if 0 \<le> i \<and> i < int (length xs) then Some (xs ! nat i) else None)"

text \<open>
  What a loop body does next: it panics, it leaves the function with a \<^verbatim>\<open>return\<close>,
  or it goes on with the next iteration in a new state.
\<close>

datatype ('r, 's) flow = Panic | Return 'r | Continue 's

subsection \<open>\<^verbatim>\<open>processSpoilerContent\<close>\<close>

text \<open>
  The local variables of the loop of \<^verbatim>\<open>processSpoilerContent\<close>. The field \<open>out\<close> is
  the builder \<^verbatim>\<open>result\<close> of the source (the record of \<^verbatim>\<open>_EscapeMarkdown\<close> below has
  a field of that name).
\<close>

record nested =
  out :: string
  inNestedCode :: bool
  fenceBalance :: int

text \<open>The body of the loop over the lines between the opener and the closer.\<close>

definition spoiler_line :: "string \<Rightarrow> string \<Rightarrow> nested \<Rightarrow> (string \<times> bool, nested) flow" where
  "spoiler_line spoilerBlock line st =
     (let trimmedLine = strings_TrimSpace line in
      case
        (if \<not> inNestedCode st then
           (if strings_HasPrefix trimmedLine fence then
              (if fenceBalance st \<noteq> 0 then Return (spoilerBlock, False)
               else Continue (st\<lparr>fenceBalance := 1, inNestedCode := True,
                      out := out st @ (tildes @ strings_TrimPrefix line fence)\<rparr>))
            else Continue (st\<lparr>out := out st @ line\<rparr>))
         else
           (if trimmedLine = fence then
              (if fenceBalance st \<noteq> 1 then Return (spoilerBlock, False)
               else Continue (st\<lparr>fenceBalance := 0, inNestedCode := False,
                      out := out st @ tildes\<rparr>))
            else Continue (st\<lparr>out := out st @ line\<rparr>)))
      of
        Continue st' \<Rightarrow> Continue (st'\<lparr>out := out st' @ [newline]\<rparr>)
      | other \<Rightarrow> other)"

text \<open>
  \<^verbatim>\<open>for i := 1; i < numLines-1; i++\<close>: the loop runs while \<open>i < numLines - 1\<close>, and
  each iteration reads \<^verbatim>\<open>lines[i]\<close>.
\<close>

function spoiler_loop ::
  "string \<Rightarrow> string list \<Rightarrow> int \<Rightarrow> nested \<Rightarrow> (string \<times> bool, nested) flow" where
  "spoiler_loop spoilerBlock lines i st =
     (if i < int (length lines) - 1 then
        (case index lines i of
           None \<Rightarrow> Panic
         | Some line \<Rightarrow>
             (case spoiler_line spoilerBlock line st of
                Continue st' \<Rightarrow> spoiler_loop spoilerBlock lines (i + 1) st'
              | other \<Rightarrow> other))
      else Continue st)"
  by pat_completeness auto
termination
  by (relation "measure (\<lambda>(b, lines, i, st). nat (int (length lines) - 1 - i))") auto

declare spoiler_loop.simps [simp del]

definition processSpoilerContent :: "string \<Rightarrow> (string \<times> bool) option" where
  "processSpoilerContent spoilerBlock =
     (let trimmedBlock = strings_TrimSpace spoilerBlock in
      if trimmedBlock = [] then Some ([], True)
      else
        let lines = strings_Split trimmedBlock newline;
            numLines = int (length lines)
        in
        if numLines = 0 then Some (spoilerBlock, False)
        else case index lines 0 of None \<Rightarrow> None | Some first \<Rightarrow>
        if \<not> strings_HasPrefix first fence_spoiler then Some (spoilerBlock, False)
        else if numLines < 2 then Some (spoilerBlock, False)
        else case index lines (numLines - 1) of None \<Rightarrow> None | Some final \<Rightarrow>
        if final \<noteq> fence then Some (spoilerBlock, False)
        else
          (case spoiler_loop spoilerBlock lines 1
                  \<lparr>out = first @ [newline], inNestedCode = False, fenceBalance = 0\<rparr> of
             Panic \<Rightarrow> None
           | Return r \<Rightarrow> Some r
           | Continue st \<Rightarrow>
               if inNestedCode st then Some (spoilerBlock, False)
               else if fenceBalance st \<noteq> 0 then Some (spoilerBlock, False)
               else Some (out st @ final, True)))"

subsection \<open>\<^verbatim>\<open>_EscapeMarkdown\<close>\<close>

text \<open>
  The local variables of the loop of \<^verbatim>\<open>_EscapeMarkdown\<close>: the two builders and the two
  flags. The parse state \<open>Outside\<close> of the specification is both flags false.
\<close>

record scanner =
  result :: string
  spoilerContent :: string
  inSpoiler :: bool
  inTopLevelCode :: bool

text \<open>
  The body of \<^verbatim>\<open>for i, line := range lines\<close>; \<open>n\<close> is \<^verbatim>\<open>len(lines)\<close>. The builder
  \<^verbatim>\<open>WriteString(line)\<close> followed by the \<^verbatim>\<open>WriteByte('\n')\<close> under \<^verbatim>\<open>i < len(lines)-1\<close>
  is \<open>with_newline\<close>.
\<close>

definition with_newline :: "int \<Rightarrow> int \<Rightarrow> string \<Rightarrow> string \<Rightarrow> string" where
  "with_newline n i b line = (if i < n - 1 then (b @ line) @ [newline] else b @ line)"

definition scan_line ::
  "string \<Rightarrow> int \<Rightarrow> int \<Rightarrow> string \<Rightarrow> scanner \<Rightarrow> (string \<times> bool, scanner) flow" where
  "scan_line markdown n i line st =
     (let trimmedLine = strings_TrimSpace line in
      if inSpoiler st then
        (let st1 = st\<lparr>spoilerContent := with_newline n i (spoilerContent st) line\<rparr> in
         if trimmedLine = fence then
           (case processSpoilerContent (spoilerContent st1) of
              None \<Rightarrow> Panic
            | Some (processedSpoiler, ok) \<Rightarrow>
                if \<not> ok then Return (markdown, False)
                else Continue (st1\<lparr>inSpoiler := False,
                       result := result st1 @ processedSpoiler\<rparr>))
         else Continue st1)
      else if inTopLevelCode st then
        (let st1 = st\<lparr>result := with_newline n i (result st) line\<rparr> in
         if trimmedLine = fence then Continue (st1\<lparr>inTopLevelCode := False\<rparr>)
         else Continue st1)
      else if strings_HasPrefix trimmedLine fence_spoiler then
        Continue (st\<lparr>inSpoiler := True, spoilerContent := with_newline n i [] line\<rparr>)
      else if strings_HasPrefix trimmedLine fence then
        Continue (st\<lparr>inTopLevelCode := True, result := with_newline n i (result st) line\<rparr>)
      else Continue (st\<lparr>result := with_newline n i (result st) line\<rparr>))"

fun scan_loop ::
  "string \<Rightarrow> int \<Rightarrow> int \<Rightarrow> string list \<Rightarrow> scanner \<Rightarrow> (string \<times> bool, scanner) flow" where
  "scan_loop markdown n i [] st = Continue st"
| "scan_loop markdown n i (line # rest) st =
     (case scan_line markdown n i line st of
        Continue st' \<Rightarrow> scan_loop markdown n (i + 1) rest st'
      | other \<Rightarrow> other)"

definition scanner_init :: scanner where
  "scanner_init = \<lparr>result = [], spoilerContent = [], inSpoiler = False, inTopLevelCode = False\<rparr>"

text \<open>
  \<^verbatim>\<open>_EscapeMarkdown\<close> (an Isabelle name cannot start with an underscore). \<open>None\<close> is a
  panic, \<open>Some (text, ok)\<close> the two results.
\<close>

definition u_EscapeMarkdown :: "string \<Rightarrow> (string \<times> bool) option" where
  "u_EscapeMarkdown markdown =
     (let lines = strings_Split markdown newline in
      case scan_loop markdown (int (length lines)) 0 lines scanner_init of
        Panic \<Rightarrow> None
      | Return r \<Rightarrow> Some r
      | Continue st \<Rightarrow>
          if inSpoiler st \<or> inTopLevelCode st then Some (markdown, False)
          else Some (result st, True))"

section \<open>The block helpers that call the exported escaper\<close>

text \<open>
  The exported \<^verbatim>\<open>EscapeMarkdown\<close> returns a string and an \<^verbatim>\<open>error\<close>; \<open>None\<close> is
  Go's \<^verbatim>\<open>nil\<close>. A \<^verbatim>\<open>strings.Builder\<close> is the string written so far: a function that
  writes to the builder takes that string and returns the longer one.
\<close>

definition EscapeMarkdown :: "string \<Rightarrow> string \<times> string option" where
  "EscapeMarkdown v = (v, None)"

definition WriteSpoiler :: "string \<Rightarrow> string \<Rightarrow> string \<Rightarrow> string" where
  "WriteSpoiler sb heading text =
     (let sb = sb @ (fence @ ''spoiler '');
          sb = sb @ heading;
          sb = sb @ [newline];
          processedText =
            (if strings_Contains text fence then strings_ReplaceAll text fence tildes
             else text);
          sb = sb @ processedText
      in sb @ (newline # fence))"

definition Spoiler :: "string \<Rightarrow> string \<Rightarrow> string" where
  "Spoiler heading text = WriteSpoiler [] heading text"

definition SpoilerEscaped :: "string \<Rightarrow> string \<Rightarrow> string \<Rightarrow> string" where
  "SpoilerEscaped heading text fence_arg =
     (let sb = [] @ fence_arg;
          sb = sb @ ''spoiler'';
          sb = sb @ '' '';
          sb = sb @ heading;
          sb = sb @ [newline];
          transformed = fst (EscapeMarkdown text);
          sb = sb @ transformed;
          sb = sb @ [newline];
          sb = sb @ fence_arg
      in sb)"

definition WriteCodeBlock :: "string \<Rightarrow> string \<Rightarrow> string \<Rightarrow> string" where
  "WriteCodeBlock sb language text =
     (let sb = sb @ fence;
          sb = sb @ language;
          sb = sb @ [newline];
          transformed = fst (EscapeMarkdown text);
          sb = sb @ transformed;
          sb = sb @ [newline];
          sb = sb @ fence
      in sb)"

definition CodeBlock :: "string \<Rightarrow> string \<Rightarrow> string" where
  "CodeBlock language text = WriteCodeBlock [] language text"

definition SpoilerEscapedTilde :: "string \<Rightarrow> string \<Rightarrow> string" where
  "SpoilerEscapedTilde heading text = SpoilerEscaped heading text tildes"

definition SpoilerEscapedFence :: "string \<Rightarrow> string \<Rightarrow> string" where
  "SpoilerEscapedFence heading text = SpoilerEscaped heading text fence"

definition WriteMarkdownBlock :: "string \<Rightarrow> string \<Rightarrow> string" where
  "WriteMarkdownBlock sb text = WriteCodeBlock sb ''markdown'' text"

definition MarkdownBlock :: "string \<Rightarrow> string" where
  "MarkdownBlock text = WriteMarkdownBlock [] text"

section \<open>The functions of the repository and the functions each of them calls\<close>

text \<open>
  Whether a function is called is a fact about the text of the program, not about the
  values it computes. It is modelled by the call table of the repository: for each
  function declaration of a Go file (the library, the command and the tests; a method
  under the name of its receiver type), the functions of the repository that its body
  calls, in the order of their first call. Calls of library functions (\<^verbatim>\<open>fmt\<close>,
  \<^verbatim>\<open>strings\<close>, \<^verbatim>\<open>strconv\<close>, \<^verbatim>\<open>testing\<close>) are left out. The command calls
  \<^verbatim>\<open>zlmd.Process\<close>, which no file of the repository declares: it has no entry of its
  own.
\<close>

definition calls_formatting :: "(string \<times> string list) list" where
  "calls_formatting =
    [(''Bold'', []),
     (''Italic'', []),
     (''Code'', []),
     (''Link'', []),
     (''Image'', []),
     (''HorizontalRule'', []),
     (''Heading'', []),
     (''H1'', [''Heading'']),
     (''H2'', [''Heading'']),
     (''H3'', [''Heading'']),
     (''H4'', [''Heading'']),
     (''H5'', [''Heading'']),
     (''H6'', [''Heading'']),
     (''QuoteBlock'', []),
     (''QuoteBlocknl'', [''QuoteBlock'']),
     (''Paragraph'', []),
     (''P'', [''Paragraph'']),
     (''BR'', []),
     (''WriteHeading'', [''Heading'']),
     (''WriteBold'', [''Bold'']),
     (''WB'', [''WriteBold'']),
     (''WriteItalic'', [''Italic'']),
     (''WI'', [''WriteItalic'']),
     (''WriteCode'', [''Code'']),
     (''WC'', [''WriteCode'']),
     (''WriteLink'', [''Link'']),
     (''WL'', [''WriteLink'']),
     (''WriteImage'', [''Image'']),
     (''WIMG'', [''WriteImage'']),
     (''WriteHorizontalRule'', [''HorizontalRule'']),
     (''WHR'', [''WriteHorizontalRule'']),
     (''WriteQuoteBlock'', [''QuoteBlock'']),
     (''WQB'', [''WriteQuoteBlock'']),
     (''ListItem'', []),
     (''LI'', [''WriteListItem'']),
     (''WriteListItem'', [''ListItem'']),
     (''WLI'', [''WriteListItem'']),
     (''ChecklistItem'', []),
     (''CLI'', [''ChecklistItem'']),
     (''WriteChecklistItem'', [''ChecklistItem'']),
     (''WCLI'', [''WriteChecklistItem'']),
     (''KeyValue'', [''Bold'']),
     (''KV'', [''KeyValue'']),
     (''WriteKeyValue'', [''KeyValue'']),
     (''WKV'', [''WriteKeyValue''])]"

definition calls_blocks :: "(string \<times> string list) list" where
  "calls_blocks =
    [(''EscapeMarkdown'', []),
     (''Spoiler'', [''WriteSpoiler'']),
     (''SpoilerEscaped'', [''EscapeMarkdown'']),
     (''SpoilerEscapedTilde'', [''SpoilerEscaped'']),
     (''SpoilerEscapedFence'', [''SpoilerEscaped'']),
     (''WriteSpoiler'', []),
     (''CodeBlock'', [''WriteCodeBlock'']),
     (''WriteCodeBlock'', [''EscapeMarkdown'']),
     (''MarkdownBlock'', [''WriteMarkdownBlock'']),
     (''WriteMarkdownBlock'', [''WriteCodeBlock''])]"

definition calls_time :: "(string \<times> string list) list" where
  "calls_time =
    [(''ZLFormatTime'', [])]"

definition calls_tables :: "(string \<times> string list) list" where
  "calls_tables =
    [(''NewTableBuilder'', []),
     (''TableBuilder.WithHeaders'', []),
     (''TableBuilder.WithHeaderStyle'', []),
     (''TableBuilder.WithBoldHeaders'', [''TableBuilder.WithHeaderStyle'']),
     (''TableBuilder.AddRow'', []),
     (''TableBuilder.AddRows'', [''TableBuilder.AddRow'']),
     (''TableBuilder.SetAlignment'', []),
     (''TableBuilder.SetAlignments'', []),
     (''TableBuilder.Build'', [])]"

definition calls_shortcuts :: "(string \<times> string list) list" where
  "calls_shortcuts =
    [(''NoErr'', []),
     (''NoErrWarn'', []),
     (''Warnf'', []),
     (''WarnUsage'', [''Warnf'']),
     (''Infof'', []),
     (''Successf'', []),
     (''Errorf'', []),
     (''Debugf'', []),
     (''Point'', []),
     (''Pointnl'', [''Point'']),
     (''Right'', [''arrow'']),
     (''Left'', [''arrow'']),
     (''LeftRight'', [''arrow'']),
     (''RightDotted'', [''arrow'']),
     (''LeftDotted'', [''arrow'']),
     (''Rightnl'', [''arrow'']),
     (''Leftnl'', [''arrow'']),
     (''RightDottednl'', [''arrow'']),
     (''LeftDottednl'', [''arrow'']),
     (''arrow'', []),
     (''Badge'', []),
     (''Usage'', [''Warnf'']),
     (''CommandInfo'', [])]"

definition calls_escaper :: "(string \<times> string list) list" where
  "calls_escaper =
    [(''_EscapeMarkdown'', [''processSpoilerContent'']),
     (''processSpoilerContent'', [])]"

definition calls_sections :: "(string \<times> string list) list" where
  "calls_sections =
    [(''TestTableBuilderIntegration'', [''NewTableBuilder'', ''TableBuilder.WithHeaders'', ''TableBuilder.AddRow'', ''TableBuilder.Build'']),
     (''NewSection'', []),
     (''Section.AddBullet'', []),
     (''Section.AddNumberedItem'', []),
     (''Section.AddText'', []),
     (''Section.AddTable'', [''TableBuilder.Build'']),
     (''Section.Build'', []),
     (''TestSection_Basic'', [''NewSection'', ''Section.Build'']),
     (''TestSection_WithText'', [''NewSection'', ''Section.AddText'', ''Section.Build'']),
     (''TestSection_WithList'', [''NewSection'', ''Section.AddBullet'', ''Section.Build'']),
     (''TestSection_WithNumberedList'', [''NewSection'', ''Section.AddNumberedItem'', ''Section.Build'']),
     (''TestSection_WithTable'', [''NewSection'', ''NewTableBuilder'', ''TableBuilder.WithHeaders'', ''TableBuilder.AddRow'', ''Section.AddTable'', ''Section.Build'']),
     (''TestSection_HeadingLevelLimits'', [''NewSection'']),
     (''TestSection_Chaining'', [''NewSection'', ''Section.AddText'', ''Section.AddBullet'', ''Section.AddNumberedItem'', ''Section.Build''])]"

definition calls_tests :: "(string \<times> string list) list" where
  "calls_tests =
    [(''TestTableBuilder_Empty'', [''NewTableBuilder'', ''TableBuilder.Build'']),
     (''TestTableBuilder_WithHeaders'', [''NewTableBuilder'', ''TableBuilder.WithHeaders'', ''TableBuilder.Build'']),
     (''TestTableBuilder_WithBoldHeaders'', [''NewTableBuilder'', ''TableBuilder.WithHeaders'', ''TableBuilder.WithBoldHeaders'', ''TableBuilder.Build'']),
     (''TestTableBuilder_AddRow'', [''NewTableBuilder'', ''TableBuilder.WithHeaders'', ''TableBuilder.AddRow'', ''TableBuilder.Build'']),
     (''TestTableBuilder_AddRows'', [''NewTableBuilder'', ''TableBuilder.WithHeaders'', ''TableBuilder.AddRows'', ''TableBuilder.Build'']),
     (''TestTableBuilder_Alignments'', [''NewTableBuilder'', ''TableBuilder.WithHeaders'', ''TableBuilder.SetAlignment'', ''TableBuilder.AddRow'', ''TableBuilder.Build'']),
     (''TestTableBuilder_SetAlignments'', [''NewTableBuilder'', ''TableBuilder.WithHeaders'', ''TableBuilder.SetAlignments'', ''TableBuilder.AddRow'', ''TableBuilder.Build'']),
     (''TestTableBuilder_FewerCellsThanHeaders'', [''NewTableBuilder'', ''TableBuilder.WithHeaders'', ''TableBuilder.AddRow'', ''TableBuilder.Build'']),
     (''TestTableBuilder_MoreCellsThanHeaders'', [''NewTableBuilder'', ''TableBuilder.WithHeaders'', ''TableBuilder.AddRow'', ''TableBuilder.Build'']),
     (''TestTableBuilder_CustomHeaderStyle'', [''NewTableBuilder'', ''TableBuilder.WithHeaders'', ''TableBuilder.WithHeaderStyle'', ''TableBuilder.AddRow'', ''TableBuilder.Build'']),
     (''TestTableBuilder_Chaining'', [''NewTableBuilder'', ''TableBuilder.WithHeaders'', ''TableBuilder.WithBoldHeaders'', ''TableBuilder.SetAlignments'', ''TableBuilder.AddRow'', ''TableBuilder.Build'']),
     (''TestZLFormatTime'', [''ZLFormatTime'']),
     (''TestZLFormatTime_ZeroTime'', [''ZLFormatTime'']),
     (''TestSpoiler'', [''Spoiler'']),
     (''TestSpoilerEscaped'', [''SpoilerEscaped'']),
     (''TestSpoilerEscapedTilde'', [''SpoilerEscapedTilde'']),
     (''TestSpoilerEscapedFence'', [''SpoilerEscapedFence'']),
     (''TestCodeBlock'', [''CodeBlock'']),
     (''TestMarkdownBlock'', [''MarkdownBlock'']),
     (''TestNestedBlocks'', [''Spoiler'', ''CodeBlock''])]"

definition calls_command :: "(string \<times> string list) list" where
  "calls_command =
    [(''main'', [''Process''])]"

definition call_table :: "(string \<times> string list) list" where
  "call_table =
     calls_formatting @ calls_blocks @ calls_time @ calls_tables @ calls_shortcuts @
     calls_escaper @ calls_sections @ calls_tests @ calls_command"

text \<open>The functions that the declarations named \<open>f\<close> call, and the relation "\<open>f\<close> calls \<open>g\<close>".\<close>

definition calls :: "string \<Rightarrow> string list" where
  "calls f = concat (map snd (filter (\<lambda>(g, gs). g = f) call_table))"

definition calls_directly :: "string \<Rightarrow> string \<Rightarrow> bool" where
  "calls_directly f g = (g \<in> set (calls f))"

text \<open>
  Go exports a name that begins with an upper-case letter; for a method, the name after
  the dot.
\<close>

definition go_exported :: "string \<Rightarrow> bool" where
  "go_exported f =
     (case rev (takeWhile (\<lambda>c. c \<noteq> CHR ''.'') (rev f)) of
        [] \<Rightarrow> False
      | c # _ \<Rightarrow> 65 \<le> (of_char c :: nat) \<and> (of_char c :: nat) \<le> 90)"

section \<open>Notions used to state the properties\<close>

text \<open>The lines of a document put together again, a newline between two lines.\<close>

fun join_lines :: "string list \<Rightarrow> string" where
  "join_lines [] = []"
| "join_lines [l] = l"
| "join_lines (l # m # ls) = l @ newline # join_lines (m # ls)"

text \<open>
  What the scan writes for the lines \<open>ls\<close> it copies, the first of which has index \<open>i\<close>
  among the \<open>n\<close> lines of the document.
\<close>

fun emitted :: "int \<Rightarrow> int \<Rightarrow> string list \<Rightarrow> string" where
  "emitted n i [] = []"
| "emitted n i (l # ls) = with_newline n i [] l @ emitted n (i + 1) ls"

text \<open>A byte of the text and the byte \<^verbatim>\<open>Spoiler\<close> writes for it.\<close>

definition fence_byte :: "char \<Rightarrow> char \<Rightarrow> bool" where
  "fence_byte a b = (b = a \<or> (a = backtick \<and> b = tilde))"

subsection \<open>Documents\<close>

text \<open>The nested example of the specification, and the output the specification gives for it.\<close>

definition nested_example :: string where
  "nested_example =
     fence_spoiler @ '' Code Example'' @ [newline] @
     fence @ ''go'' @ [newline] @
     ''fmt.Println(\"Hello\")'' @ [newline] @
     fence @ [newline] @
     fence"

definition nested_example_expected :: string where
  "nested_example_expected =
     fence_spoiler @ '' Code Example'' @ [newline] @
     tildes @ ''go'' @ [newline] @
     ''fmt.Println(\"Hello\")'' @ [newline] @
     tildes @ [newline] @
     fence"

text \<open>A code block that is never closed, and a spoiler that is never closed.\<close>

definition unclosed_code :: string where
  "unclosed_code = fence @ ''go'' @ [newline] @ ''x := 1''"

definition unclosed_spoiler :: string where
  "unclosed_spoiler = fence_spoiler @ '' Title'' @ [newline] @ ''some text''"

text \<open>A closed spoiler followed by a line of text, and one followed by two newlines.\<close>

definition spoiler_then_text :: string where
  "spoiler_then_text = fence_spoiler @ '' a'' @ [newline] @ fence @ [newline] @ ''text''"

definition spoiler_then_blank :: string where
  "spoiler_then_blank = fence_spoiler @ '' a'' @ [newline] @ fence @ [newline, newline]"

text \<open>Two lines of plain text.\<close>

definition plain_text :: string where
  "plain_text = ''plain text'' @ [newline] @ ''  second line''"

text \<open>A line of text, a code block with a spoiler opener inside, and a line of text.\<close>

definition code_block_doc :: string where
  "code_block_doc =
     ''intro'' @ [newline] @
     fence @ ''go'' @ [newline] @
     fence_spoiler @ '' x'' @ [newline] @
     ''text'' @ [newline] @
     fence @ [newline] @
     ''after''"

text \<open>A closed spoiler followed by a code block.\<close>

definition spoiler_then_code :: string where
  "spoiler_then_code =
     fence_spoiler @ '' a'' @ [newline] @ fence @ [newline] @
     fence @ ''go'' @ [newline] @ ''x'' @ [newline] @ fence"

text \<open>A spoiler whose closing fence is indented by one space.\<close>

definition indented_closer :: string where
  "indented_closer = fence_spoiler @ '' a'' @ [newline] @ '' '' @ fence"

section \<open>Splitting and joining lines\<close>

lemma strings_Split_not_Nil: "strings_Split s c \<noteq> []"
  by (induction s) (auto split: list.splits)

lemma join_lines_Split: "join_lines (strings_Split s newline) = s"
proof (induction s)
  case Nil
  show ?case by simp
next
  case (Cons a s)
  obtain l ls where sp: "strings_Split s newline = l # ls"
    using strings_Split_not_Nil [of s newline] by (cases "strings_Split s newline") auto
  show ?case
  proof (cases "a = newline")
    case True
    with Cons sp show ?thesis by simp
  next
    case False
    with Cons sp show ?thesis by (cases ls) auto
  qed
qed

lemma join_lines_append:
  "join_lines (xs @ ys) =
     join_lines xs @ (if xs = [] \<or> ys = [] then [] else [newline]) @ join_lines ys"
proof (induction xs rule: join_lines.induct)
  case 1
  show ?case by simp
next
  case (2 l)
  show ?case by (cases ys) simp_all
next
  case (3 l m ls)
  then show ?case by simp
qed

lemma Split_no_sep: "sep \<notin> set l \<Longrightarrow> strings_Split l sep = [l]"
  by (induction l) auto

lemma Split_line: "sep \<notin> set l \<Longrightarrow> strings_Split (l @ sep # r) sep = l # strings_Split r sep"
  by (induction l) auto

lemma Split_join_lines:
  assumes "ls \<noteq> []" "\<forall>l\<in>set ls. newline \<notin> set l"
  shows "strings_Split (join_lines ls) newline = ls"
  using assms
proof (induction ls rule: join_lines.induct)
  case 1
  then show ?case by simp
next
  case (2 l)
  then show ?case by (simp add: Split_no_sep)
next
  case (3 l m ls)
  then show ?case by (simp add: Split_line)
qed

lemma join_lines_block:
  "join_lines (a # mid @ [z]) = (a @ [newline]) @ concat (map (\<lambda>l. l @ [newline]) mid) @ z"
  by (induction mid arbitrary: a) simp_all

section \<open>Trimming\<close>

text \<open>
  A byte that occurs in no white space character stops the trimming: nothing before it
  is removed from the back, nothing after it from the front.
\<close>

lemma space_width_first:
  assumes "\<forall>e\<in>set es. c \<notin> set e"
  shows "space_width es (c # s) = 0"
  using assms
proof (induction es)
  case Nil
  show ?case by simp
next
  case (Cons e es)
  have "take (length e) (c # s) \<noteq> e" if "e \<noteq> []"
  proof
    assume "take (length e) (c # s) = e"
    with that have "hd e = c" by (cases e) auto
    with that have "c \<in> set e" by (cases e) auto
    with Cons.prems show False by simp
  qed
  with Cons show ?case by simp
qed

lemma space_width_match:
  assumes "space_width es s \<noteq> 0"
  shows "\<exists>e\<in>set es. space_width es s = length e \<and> take (length e) s = e"
  using assms by (induction es) (auto split: if_splits)

lemma trim_left_barrier:
  assumes "\<forall>e\<in>set es. c \<notin> set e"
  shows "\<exists>x'. trim_left es (x @ c # r) = x' @ c # r"
proof (induction x rule: length_induct)
  case (1 x)
  show ?case
  proof (cases "space_width es (x @ c # r) = 0")
    case True
    then have "trim_left es (x @ c # r) = x @ c # r" by (subst trim_left.simps) simp
    then show ?thesis by blast
  next
    case False
    then obtain e where e: "e \<in> set es" "space_width es (x @ c # r) = length e"
      "take (length e) (x @ c # r) = e"
      using space_width_match by blast
    from False e(2) have pos: "0 < length e" by simp
    have le: "length e \<le> length x"
    proof (rule ccontr)
      assume "\<not> length e \<le> length x"
      then have "length x < length e" by simp
      then have "take (length e) (x @ c # r) ! length x = c"
        by (simp add: nth_append)
      with e(3) have "e ! length x = c" by simp
      with \<open>length x < length e\<close> have "c \<in> set e" by (metis nth_mem)
      with assms e(1) show False by blast
    qed
    then have dr: "drop (length e) (x @ c # r) = drop (length e) x @ c # r" by simp
    have "length (drop (length e) x) = length x - length e" by simp
    with le pos have "length (drop (length e) x) < length x" by linarith
    with 1 obtain x' where x': "trim_left es (drop (length e) x @ c # r) = x' @ c # r" by blast
    have "trim_left es (x @ c # r) = trim_left es (drop (length e) (x @ c # r))"
      using False e(2) by (subst trim_left.simps) (simp del: drop_append)
    also have "\<dots> = x' @ c # r" by (simp only: dr x')
    finally show ?thesis by blast
  qed
qed

lemma trim_right_barrier:
  assumes "\<forall>e\<in>set es. c \<notin> set e"
  shows "\<exists>y. trim_right es (x @ c # r) = x @ c # y"
proof -
  from assms have "\<forall>e\<in>set (map rev es). c \<notin> set e" by simp
  then obtain y where "trim_left (map rev es) (rev r @ c # rev x) = y @ c # rev x"
    using trim_left_barrier by blast
  then have "trim_right es (x @ c # r) = x @ c # rev y" by (simp add: trim_right_def)
  then show ?thesis by blast
qed

lemma trim_left_first:
  "\<forall>e\<in>set es. c \<notin> set e \<Longrightarrow> trim_left es (c # s) = c # s"
  by (subst trim_left.simps) (simp add: space_width_first)

lemma backtick_no_space: "\<forall>e\<in>set space_encodings. backtick \<notin> set e"
  by (simp add: space_encodings_def)

lemma letter_r_no_space: "\<forall>e\<in>set space_encodings. CHR ''r'' \<notin> set e"
  by (simp add: space_encodings_def)

lemma TrimSpace_keeps:
  assumes "\<forall>e\<in>set space_encodings. c \<notin> set e"
  shows "\<exists>y. strings_TrimSpace (backtick # p @ c # x) = backtick # p @ c # y"
proof -
  have "trim_left space_encodings (backtick # p @ c # x) = backtick # p @ c # x"
    using backtick_no_space by (rule trim_left_first)
  moreover obtain y where "trim_right space_encodings ((backtick # p) @ c # x) = (backtick # p) @ c # y"
    using trim_right_barrier [OF assms] by blast
  ultimately show ?thesis by (simp add: strings_TrimSpace_def)
qed

lemma TrimSpace_fence_prefix: "strings_HasPrefix (strings_TrimSpace (fence @ x)) fence"
proof -
  obtain y where "strings_TrimSpace (backtick # [backtick] @ backtick # x) = backtick # [backtick] @ backtick # y"
    using TrimSpace_keeps [OF backtick_no_space] by blast
  then show ?thesis by (simp add: strings_HasPrefix_def)
qed

lemma TrimSpace_fence_spoiler_prefix:
  "strings_HasPrefix (strings_TrimSpace (fence_spoiler @ x)) fence_spoiler"
proof -
  obtain y where "strings_TrimSpace (backtick # (backtick # backtick # ''spoile'') @ CHR ''r'' # x)
      = backtick # (backtick # backtick # ''spoile'') @ CHR ''r'' # y"
    using TrimSpace_keeps [OF letter_r_no_space] by blast
  then show ?thesis by (simp add: strings_HasPrefix_def)
qed

lemma TrimSpace_block:
  "strings_TrimSpace (backtick # z @ [backtick, newline]) = backtick # z @ [backtick]"
proof -
  have l: "trim_left space_encodings (backtick # z @ [backtick, newline]) = backtick # z @ [backtick, newline]"
    using backtick_no_space by (rule trim_left_first)
  have w: "space_width (map rev space_encodings) (newline # s) = 1" for s
    by (simp add: space_encodings_def)
  have "\<forall>e\<in>set (map rev space_encodings). backtick \<notin> set e"
    using backtick_no_space by simp
  then have b: "trim_left (map rev space_encodings) (backtick # s) = backtick # s" for s
    by (rule trim_left_first)
  have "trim_left (map rev space_encodings) (newline # backtick # rev z @ [backtick])
      = trim_left (map rev space_encodings) (backtick # rev z @ [backtick])"
    by (subst trim_left.simps) (simp add: w)
  then have "trim_right space_encodings (backtick # z @ [backtick, newline]) = backtick # z @ [backtick]"
    by (simp add: trim_right_def b)
  with l show ?thesis by (simp add: strings_TrimSpace_def)
qed

lemma TrimSpace_fenced:
  "strings_TrimSpace (backtick # z @ [backtick]) = backtick # z @ [backtick]"
proof -
  have l: "trim_left space_encodings (backtick # z @ [backtick]) = backtick # z @ [backtick]"
    using backtick_no_space by (rule trim_left_first)
  have "\<forall>e\<in>set (map rev space_encodings). backtick \<notin> set e"
    using backtick_no_space by simp
  then have "trim_left (map rev space_encodings) (backtick # rev z @ [backtick])
      = backtick # rev z @ [backtick]"
    by (rule trim_left_first)
  then have "trim_right space_encodings (backtick # z @ [backtick]) = backtick # z @ [backtick]"
    by (simp add: trim_right_def)
  with l show ?thesis by (simp add: strings_TrimSpace_def)
qed

lemma TrimSpace_fence: "strings_TrimSpace fence = fence"
  using TrimSpace_fenced [of "[backtick]"] by simp

lemma TrimSpace_empty: "strings_TrimSpace [] = []"
  by code_simp

lemma empty_line_plain: "\<not> strings_HasPrefix (strings_TrimSpace []) fence"
  by (simp add: TrimSpace_empty strings_HasPrefix_def)

lemma plain_not_fence:
  "\<not> strings_HasPrefix (strings_TrimSpace l) fence \<Longrightarrow> strings_TrimSpace l \<noteq> fence"
  by (auto simp add: strings_HasPrefix_def)

lemma HasPrefix_append:
  assumes "strings_HasPrefix t (p @ q)" shows "strings_HasPrefix t p"
proof -
  from assms have a: "take (length (p @ q)) t = p @ q" by (simp add: strings_HasPrefix_def)
  have "take (length p) t = take (length p) (take (length (p @ q)) t)" by (simp add: min_def)
  also have "\<dots> = p" by (simp only: a) simp
  finally show ?thesis by (simp add: strings_HasPrefix_def)
qed

lemma fence_spoiler_prefix:
  "strings_HasPrefix t fence_spoiler \<Longrightarrow> strings_HasPrefix t fence"
  by (rule HasPrefix_append)

section \<open>The escaper never panics, and a failure returns its input\<close>

lemma index_in_range: "0 \<le> i \<Longrightarrow> i < int (length xs) \<Longrightarrow> index xs i = Some (xs ! nat i)"
  by (simp add: index_def)

lemma spoiler_line_no_panic: "spoiler_line b l st \<noteq> Panic"
  by (simp add: spoiler_line_def Let_def)

lemma spoiler_line_Return: "spoiler_line b l st = Return r \<Longrightarrow> r = (b, False)"
  by (auto simp add: spoiler_line_def Let_def split: if_splits)

lemma spoiler_loop_no_panic: "0 \<le> i \<Longrightarrow> spoiler_loop b lines i st \<noteq> Panic"
proof (induction b lines i st rule: spoiler_loop.induct)
  case (1 b lines i st)
  show ?case
  proof (cases "i < int (length lines) - 1")
    case False
    then show ?thesis by (subst spoiler_loop.simps) simp
  next
    case True
    with 1(2) have ix: "index lines i = Some (lines ! nat i)" by (simp add: index_def)
    show ?thesis
    proof (cases "spoiler_line b (lines ! nat i) st")
      case Panic
      then show ?thesis using spoiler_line_no_panic by blast
    next
      case (Return r)
      with True ix show ?thesis by (subst spoiler_loop.simps) simp
    next
      case (Continue st')
      have "spoiler_loop b lines (i + 1) st' \<noteq> Panic"
        using 1(1) [OF True ix Continue] 1(2) by simp
      with True ix Continue show ?thesis by (subst spoiler_loop.simps) simp
    qed
  qed
qed

lemma spoiler_loop_Return: "spoiler_loop b lines i st = Return r \<Longrightarrow> r = (b, False)"
proof (induction b lines i st rule: spoiler_loop.induct)
  case (1 b lines i st)
  from 1(2) show ?case
    apply (subst (asm) spoiler_loop.simps)
    apply (auto split: if_splits option.splits flow.splits dest: spoiler_line_Return 1(1))
    done
qed

lemma processSpoilerContent_no_panic: "processSpoilerContent b \<noteq> None"
proof -
  have "spoiler_loop b lines 1 st \<noteq> Panic" for lines st
    by (rule spoiler_loop_no_panic) simp
  then show ?thesis
    by (auto simp add: processSpoilerContent_def Let_def index_def split: option.splits flow.splits)
qed

lemma processSpoilerContent_failure: "processSpoilerContent b = Some (t, False) \<Longrightarrow> t = b"
  by (auto simp add: processSpoilerContent_def Let_def split: if_splits option.splits flow.splits
      dest: spoiler_loop_Return)

lemma scan_line_no_panic: "scan_line md n i l st \<noteq> Panic"
proof -
  obtain t ok where "processSpoilerContent (with_newline n i (spoilerContent st) l) = Some (t, ok)"
    using processSpoilerContent_no_panic [of "with_newline n i (spoilerContent st) l"] by auto
  then show ?thesis
    by (simp add: scan_line_def Let_def)
qed

lemma scan_line_Return: "scan_line md n i l st = Return r \<Longrightarrow> r = (md, False)"
  by (auto simp add: scan_line_def Let_def split: if_splits option.splits prod.splits)

lemma scan_loop_no_panic: "scan_loop md n i ls st \<noteq> Panic"
  by (induction ls arbitrary: i st) (auto split: flow.splits simp add: scan_line_no_panic)

lemma scan_loop_Return: "scan_loop md n i ls st = Return r \<Longrightarrow> r = (md, False)"
  by (induction ls arbitrary: i st) (auto split: flow.splits dest: scan_line_Return)

text \<open>
  Claim C2. For every input, \<^verbatim>\<open>_EscapeMarkdown\<close> returns (it does not panic), and
  whenever it returns \<open>ok = false\<close> the text it returns is the input itself.
\<close>

theorem escape_failure_returns_input:
  "u_EscapeMarkdown d \<noteq> None \<and> (\<forall>t. u_EscapeMarkdown d = Some (t, False) \<longrightarrow> t = d)"
proof (cases "scan_loop d (int (length (strings_Split d newline))) 0 (strings_Split d newline) scanner_init")
  case Panic
  then show ?thesis using scan_loop_no_panic by blast
next
  case (Return r)
  then have "r = (d, False)" by (rule scan_loop_Return)
  with Return show ?thesis by (auto simp add: u_EscapeMarkdown_def Let_def)
next
  case (Continue st)
  then show ?thesis by (auto simp add: u_EscapeMarkdown_def Let_def)
qed

theorem escape_failure_returns_input_witness:
  "u_EscapeMarkdown unclosed_code = Some (unclosed_code, False)"
proof -
  have "map_option snd (u_EscapeMarkdown unclosed_code) = Some False" by code_simp
  then obtain t where "u_EscapeMarkdown unclosed_code = Some (t, False)"
    by (cases "u_EscapeMarkdown unclosed_code") auto
  with escape_failure_returns_input [of unclosed_code] show ?thesis by simp
qed

section \<open>The steps of the scan\<close>

lemma scan_loop_append:
  "scan_loop md n i (xs @ ys) st =
     (case scan_loop md n i xs st of
        Continue st' \<Rightarrow> scan_loop md n (i + int (length xs)) ys st'
      | Panic \<Rightarrow> Panic
      | Return r \<Rightarrow> Return r)"
proof (induction xs arbitrary: i st)
  case Nil
  show ?case by simp
next
  case (Cons x xs)
  show ?case
  proof (cases "scan_line md n i x st")
    case (Continue st')
    have "i + 1 + int (length xs) = i + int (length (x # xs))" by simp
    with Continue Cons [of "i + 1" st'] show ?thesis by (simp cong: flow.case_cong)
  qed simp_all
qed

lemma scan_line_plain:
  assumes "\<not> inSpoiler st" "\<not> inTopLevelCode st"
    and "\<not> strings_HasPrefix (strings_TrimSpace l) fence"
  shows "scan_line md n i l st = Continue (st\<lparr>result := with_newline n i (result st) l\<rparr>)"
proof -
  from assms(3) have "\<not> strings_HasPrefix (strings_TrimSpace l) fence_spoiler"
    using fence_spoiler_prefix by blast
  with assms show ?thesis by (simp add: scan_line_def Let_def)
qed

lemma scan_line_open_code:
  assumes "\<not> inSpoiler st" "\<not> inTopLevelCode st"
    and "strings_HasPrefix (strings_TrimSpace l) fence"
    and "\<not> strings_HasPrefix (strings_TrimSpace l) fence_spoiler"
  shows "scan_line md n i l st =
    Continue (st\<lparr>inTopLevelCode := True, result := with_newline n i (result st) l\<rparr>)"
  using assms by (simp add: scan_line_def Let_def)

lemma scan_line_open_spoiler:
  assumes "\<not> inSpoiler st" "\<not> inTopLevelCode st"
    and "strings_HasPrefix (strings_TrimSpace l) fence_spoiler"
  shows "scan_line md n i l st =
    Continue (st\<lparr>inSpoiler := True, spoilerContent := with_newline n i [] l\<rparr>)"
  using assms by (simp add: scan_line_def Let_def)

lemma scan_line_in_code:
  assumes "\<not> inSpoiler st" "inTopLevelCode st"
  shows "scan_line md n i l st =
    Continue (st\<lparr>result := with_newline n i (result st) l,
                    inTopLevelCode := (strings_TrimSpace l \<noteq> fence)\<rparr>)"
  using assms by (simp add: scan_line_def Let_def)

lemma scan_line_in_spoiler:
  assumes "inSpoiler st" "strings_TrimSpace l \<noteq> fence"
  shows "scan_line md n i l st =
    Continue (st\<lparr>spoilerContent := with_newline n i (spoilerContent st) l\<rparr>)"
  using assms by (simp add: scan_line_def Let_def)

lemma scan_line_close:
  assumes "inSpoiler st" "strings_TrimSpace l = fence"
    and "processSpoilerContent (with_newline n i (spoilerContent st) l) = Some (t, True)"
  shows "scan_line md n i l st =
    Continue (st\<lparr>spoilerContent := with_newline n i (spoilerContent st) l,
                    inSpoiler := False, result := result st @ t\<rparr>)"
  using assms by (simp add: scan_line_def Let_def)

lemma scan_line_close_fails:
  assumes "inSpoiler st" "strings_TrimSpace l = fence"
    and "processSpoilerContent (with_newline n i (spoilerContent st) l) = Some (t, False)"
  shows "scan_line md n i l st = Return (md, False)"
  using assms by (simp add: scan_line_def Let_def)

lemma with_newline_last: "with_newline n (n - 1) b l = b @ l"
  by (simp add: with_newline_def)

lemma with_newline_inner: "i < n - 1 \<Longrightarrow> with_newline n i b l = b @ l @ [newline]"
  by (simp add: with_newline_def)

lemma with_newline_acc: "with_newline n i b l = b @ with_newline n i [] l"
  by (simp add: with_newline_def)

lemma emitted_append:
  "emitted n i (xs @ ys) = emitted n i xs @ emitted n (i + int (length xs)) ys"
  by (induction xs arbitrary: i) (simp_all add: add.assoc)

lemma emitted_join_lines:
  assumes "ls \<noteq> []" "i + int (length ls) \<le> n"
  shows "emitted n i ls = join_lines ls @ (if i + int (length ls) < n then [newline] else [])"
  using assms
proof (induction ls arbitrary: i rule: join_lines.induct)
  case 1
  then show ?case by simp
next
  case (2 l)
  then show ?case by (simp add: with_newline_def)
next
  case (3 l m ls)
  from 3(3) have "i < n - 1" by simp
  moreover have "emitted n (i + 1) (m # ls) =
      join_lines (m # ls) @ (if (i + 1) + int (length (m # ls)) < n then [newline] else [])"
    using 3(3) by (intro 3(1)) simp_all
  ultimately show ?case by (simp add: with_newline_def)
qed

lemma scan_loop_plain:
  assumes "\<forall>l\<in>set ls. \<not> strings_HasPrefix (strings_TrimSpace l) fence"
    and "\<not> inSpoiler st" "\<not> inTopLevelCode st"
    and "i + int (length ls) = n"
  shows "scan_loop md n i ls st = Continue (st\<lparr>result := result st @ join_lines ls\<rparr>)"
  using assms
proof (induction ls arbitrary: i st)
  case Nil
  show ?case by simp
next
  case (Cons l ls)
  let ?st = "st\<lparr>result := with_newline n i (result st) l\<rparr>"
  have step: "scan_line md n i l st = Continue ?st"
    using Cons.prems by (simp add: scan_line_plain)
  show ?case
  proof (cases ls)
    case Nil
    with Cons.prems have "i = n - 1" by simp
    with step Nil show ?thesis by (simp add: with_newline_last)
  next
    case (Cons m ms)
    with Cons.prems have lt: "i < n - 1" by simp
    have "scan_loop md n (i + 1) ls ?st = Continue (?st\<lparr>result := result ?st @ join_lines ls\<rparr>)"
      using Cons.prems by (intro Cons.IH) auto
    with step lt Cons show ?thesis by (simp add: with_newline_inner)
  qed
qed

lemma scan_loop_in_spoiler:
  assumes "inSpoiler st" "\<forall>l\<in>set ls. strings_TrimSpace l \<noteq> fence"
  shows "\<exists>st'. scan_loop md n i ls st = Continue st' \<and> inSpoiler st'"
  using assms
proof (induction ls arbitrary: i st)
  case Nil
  then show ?case by simp
next
  case (Cons l ls)
  let ?st = "st\<lparr>spoilerContent := with_newline n i (spoilerContent st) l\<rparr>"
  have "scan_line md n i l st = Continue ?st"
    using Cons.prems by (simp add: scan_line_in_spoiler)
  moreover have "\<exists>st'. scan_loop md n (i + 1) ls ?st = Continue st' \<and> inSpoiler st'"
    using Cons.prems by (intro Cons.IH) simp_all
  ultimately show ?case by simp
qed

lemma scan_loop_collects:
  assumes "inSpoiler st" "\<forall>l\<in>set ls. strings_TrimSpace l \<noteq> fence"
  shows "scan_loop md n i ls st =
    Continue (st\<lparr>spoilerContent := spoilerContent st @ emitted n i ls\<rparr>)"
  using assms
proof (induction ls arbitrary: i st)
  case Nil
  then show ?case by simp
next
  case (Cons l ls)
  let ?st = "st\<lparr>spoilerContent := with_newline n i (spoilerContent st) l\<rparr>"
  have step: "scan_line md n i l st = Continue ?st"
    using Cons.prems by (simp add: scan_line_in_spoiler)
  have "scan_loop md n (i + 1) ls ?st =
      Continue (?st\<lparr>spoilerContent := spoilerContent ?st @ emitted n (i + 1) ls\<rparr>)"
    using Cons.prems by (intro Cons.IH) simp_all
  with step show ?case by (simp add: with_newline_acc [of n i "spoilerContent st"])
qed

lemma scan_loop_in_code:
  assumes "\<not> inSpoiler st" "inTopLevelCode st" "\<forall>l\<in>set ls. strings_TrimSpace l \<noteq> fence"
  shows "scan_loop md n i ls st = Continue (st\<lparr>result := result st @ emitted n i ls\<rparr>)"
  using assms
proof (induction ls arbitrary: i st)
  case Nil
  then show ?case by simp
next
  case (Cons l ls)
  let ?st = "st\<lparr>result := with_newline n i (result st) l\<rparr>"
  have step: "scan_line md n i l st = Continue ?st"
    using Cons.prems by (simp add: scan_line_in_code)
  have "scan_loop md n (i + 1) ls ?st = Continue (?st\<lparr>result := result ?st @ emitted n (i + 1) ls\<rparr>)"
    using Cons.prems by (intro Cons.IH) simp_all
  with step show ?case by (simp add: with_newline_def)
qed

lemma scan_loop_code_open:
  assumes "\<not> inSpoiler st" "\<not> inTopLevelCode st"
    and "strings_HasPrefix (strings_TrimSpace opener) fence"
    and "\<not> strings_HasPrefix (strings_TrimSpace opener) fence_spoiler"
    and "\<forall>l\<in>set body. strings_TrimSpace l \<noteq> fence"
  shows "scan_loop md n i (opener # body) st =
           Continue (st\<lparr>inTopLevelCode := True, result := result st @ emitted n i (opener # body)\<rparr>)"
proof -
  let ?st1 = "st\<lparr>inTopLevelCode := True, result := with_newline n i (result st) opener\<rparr>"
  have s1: "scan_line md n i opener st = Continue ?st1"
    using assms by (simp add: scan_line_open_code)
  have s2: "scan_loop md n (i + 1) body ?st1 =
      Continue (?st1\<lparr>result := result ?st1 @ emitted n (i + 1) body\<rparr>)"
    using assms by (intro scan_loop_in_code) simp_all
  have "with_newline n i (result st) opener @ emitted n (i + 1) body
      = result st @ emitted n i (opener # body)"
    by (simp add: with_newline_acc [of n i "result st"])
  with s1 s2 show ?thesis by simp
qed

lemma scan_loop_code_block:
  assumes "\<not> inSpoiler st" "\<not> inTopLevelCode st"
    and "strings_HasPrefix (strings_TrimSpace opener) fence"
    and "\<not> strings_HasPrefix (strings_TrimSpace opener) fence_spoiler"
    and "\<forall>l\<in>set body. strings_TrimSpace l \<noteq> fence"
    and "strings_TrimSpace closer = fence"
  shows "scan_loop md n i (opener # body @ [closer]) st =
           Continue (st\<lparr>result := result st @ emitted n i (opener # body @ [closer])\<rparr>)"
proof -
  let ?k = "i + int (length (opener # body))"
  let ?st2 = "st\<lparr>inTopLevelCode := True, result := result st @ emitted n i (opener # body)\<rparr>"
  have b: "scan_loop md n i (opener # body) st = Continue ?st2"
    using assms(1-5) by (rule scan_loop_code_open)
  have s3: "scan_line md n ?k closer ?st2 =
      Continue (?st2\<lparr>result := with_newline n ?k (result ?st2) closer, inTopLevelCode := False\<rparr>)"
    using assms by (simp add: scan_line_in_code)
  have r: "with_newline n ?k (result ?st2) closer = result st @ emitted n i ((opener # body) @ [closer])"
    by (simp only: emitted_append with_newline_acc [of n ?k "result ?st2"]) simp
  have "scan_loop md n i ((opener # body) @ [closer]) st = scan_loop md n ?k [closer] ?st2"
    by (simp only: scan_loop_append b flow.case)
  also have "\<dots> = Continue (?st2\<lparr>result := with_newline n ?k (result ?st2) closer, inTopLevelCode := False\<rparr>)"
    using s3 by simp
  also have "\<dots> = Continue (st\<lparr>result := result st @ emitted n i ((opener # body) @ [closer])\<rparr>)"
    using assms(2) by (simp only: r) (cases st, simp)
  finally show ?thesis by simp
qed

lemma scan_line_result_grows:
  "scan_line md n i l st = Continue st' \<Longrightarrow> \<exists>s. result st' = result st @ s"
  by (auto simp add: scan_line_def Let_def with_newline_def
      split: if_splits option.splits prod.splits)

lemma scan_loop_result_grows:
  "scan_loop md n i ls st = Continue st' \<Longrightarrow> \<exists>s. result st' = result st @ s"
proof (induction ls arbitrary: i st)
  case Nil
  then show ?case by simp
next
  case (Cons l ls)
  from Cons.prems obtain st1 where a: "scan_line md n i l st = Continue st1"
    and b: "scan_loop md n (i + 1) ls st1 = Continue st'"
    by (auto split: flow.splits)
  from a obtain s1 where "result st1 = result st @ s1" using scan_line_result_grows by blast
  moreover from b obtain s2 where "result st' = result st1 @ s2" using Cons.IH by blast
  ultimately show ?case by simp
qed

section \<open>Plain text\<close>

text \<open>
  Claim C7. When no line of the input, trimmed, starts with the fence,
  \<^verbatim>\<open>_EscapeMarkdown\<close> returns the input unchanged and \<open>ok = true\<close>; the empty string is
  such an input.
\<close>

theorem plain_text_unchanged:
  assumes "\<forall>l\<in>set (strings_Split d newline). \<not> strings_HasPrefix (strings_TrimSpace l) fence"
  shows "u_EscapeMarkdown d = Some (d, True)"
proof -
  have "scan_loop d (int (length (strings_Split d newline))) 0 (strings_Split d newline) scanner_init
      = Continue (scanner_init\<lparr>result := result scanner_init @ join_lines (strings_Split d newline)\<rparr>)"
    using assms by (intro scan_loop_plain) (simp_all add: scanner_init_def)
  then show ?thesis
    by (simp add: u_EscapeMarkdown_def Let_def join_lines_Split scanner_init_def)
qed

theorem plain_text_unchanged_witness:
  "u_EscapeMarkdown plain_text = Some (plain_text, True) \<and> u_EscapeMarkdown [] = Some ([], True)"
proof -
  have "\<forall>l\<in>set (strings_Split plain_text newline).
          \<not> strings_HasPrefix (strings_TrimSpace l) fence"
    by code_simp
  moreover have "\<forall>l\<in>set (strings_Split [] newline).
          \<not> strings_HasPrefix (strings_TrimSpace l) fence"
    by code_simp
  ultimately show ?thesis
    using plain_text_unchanged [of plain_text] plain_text_unchanged [of "[]"] by simp
qed

section \<open>Blocks that are never closed\<close>

lemma ok_iff_outside:
  "(\<exists>t. u_EscapeMarkdown d = Some (t, True)) \<longleftrightarrow>
   (\<exists>st. scan_loop d (int (length (strings_Split d newline))) 0 (strings_Split d newline)
           scanner_init = Continue st \<and> \<not> inSpoiler st \<and> \<not> inTopLevelCode st)"
proof (cases "scan_loop d (int (length (strings_Split d newline))) 0 (strings_Split d newline) scanner_init")
  case Panic
  then show ?thesis by (simp add: u_EscapeMarkdown_def Let_def)
next
  case (Return r)
  then have "r = (d, False)" by (rule scan_loop_Return)
  with Return show ?thesis by (simp add: u_EscapeMarkdown_def Let_def)
next
  case (Continue st)
  then show ?thesis by (simp add: u_EscapeMarkdown_def Let_def)
qed

lemma unclosed_fails:
  assumes sp: "strings_Split d newline = pre @ opener # rest"
    and pre: "scan_loop d (int (length (strings_Split d newline))) 0 pre scanner_init = Continue st"
    and outside: "\<not> inSpoiler st" "\<not> inTopLevelCode st"
    and opener: "strings_HasPrefix (strings_TrimSpace opener) fence"
    and rest: "\<forall>l\<in>set rest. strings_TrimSpace l \<noteq> fence"
  shows "u_EscapeMarkdown d = Some (d, False)"
proof -
  let ?n = "int (length (strings_Split d newline))"
  let ?i = "0 + int (length pre)"
  have "\<exists>st1. scan_line d ?n ?i opener st = Continue st1 \<and> (inSpoiler st1 \<or> inTopLevelCode st1)"
  proof (cases "strings_HasPrefix (strings_TrimSpace opener) fence_spoiler")
    case True
    with outside show ?thesis by (simp add: scan_line_open_spoiler)
  next
    case False
    with outside opener show ?thesis by (simp add: scan_line_open_code)
  qed
  then obtain st1 where s1: "scan_line d ?n ?i opener st = Continue st1"
    and in1: "inSpoiler st1 \<or> inTopLevelCode st1" by blast
  have "\<exists>st2. scan_loop d ?n (?i + 1) rest st1 = Continue st2 \<and> (inSpoiler st2 \<or> inTopLevelCode st2)"
  proof (cases "inSpoiler st1")
    case True
    with rest show ?thesis using scan_loop_in_spoiler [of st1 rest d ?n "?i + 1"] by blast
  next
    case False
    with in1 have "inTopLevelCode st1" by simp
    with False rest show ?thesis by (simp add: scan_loop_in_code)
  qed
  then obtain st2 where s2: "scan_loop d ?n (?i + 1) rest st1 = Continue st2"
    and in2: "inSpoiler st2 \<or> inTopLevelCode st2" by blast
  have "scan_loop d ?n 0 (pre @ opener # rest) scanner_init = Continue st2"
    by (simp only: scan_loop_append pre flow.case scan_loop.simps s1 s2)
  with in2 show ?thesis by (auto simp add: u_EscapeMarkdown_def Let_def sp)
qed

text \<open>
  Claim C6. When the scan is outside every block at a line that, trimmed, starts with the
  fence (a spoiler opener or the fence of a code block), and no later line is, trimmed,
  the bare fence, then \<^verbatim>\<open>_EscapeMarkdown\<close> returns the input and \<open>ok = false\<close>. And
  \<open>ok = true\<close> is returned exactly when the scan reaches the end of the input outside
  every block.
\<close>

theorem unclosed_block_fails:
  "(strings_Split d newline = pre @ opener # rest \<and>
    scan_loop d (int (length (strings_Split d newline))) 0 pre scanner_init = Continue st \<and>
    \<not> inSpoiler st \<and> \<not> inTopLevelCode st \<and>
    strings_HasPrefix (strings_TrimSpace opener) fence \<and>
    (\<forall>l\<in>set rest. strings_TrimSpace l \<noteq> fence)
    \<longrightarrow> u_EscapeMarkdown d = Some (d, False)) \<and>
   ((\<exists>t. u_EscapeMarkdown d = Some (t, True)) \<longleftrightarrow>
    (\<exists>st'. scan_loop d (int (length (strings_Split d newline))) 0 (strings_Split d newline)
           scanner_init = Continue st' \<and> \<not> inSpoiler st' \<and> \<not> inTopLevelCode st'))"
  using unclosed_fails [of d pre opener rest st] ok_iff_outside [of d] by blast

theorem unclosed_block_fails_witness:
  "u_EscapeMarkdown unclosed_spoiler = Some (unclosed_spoiler, False)"
proof -
  let ?opener = "fence_spoiler @ '' Title''"
  have sp: "strings_Split unclosed_spoiler newline = [] @ ?opener # [''some text'']"
    by code_simp
  have pre: "scan_loop unclosed_spoiler (int (length (strings_Split unclosed_spoiler newline))) 0 []
      scanner_init = Continue scanner_init"
    by simp
  have outside: "\<not> inSpoiler scanner_init" "\<not> inTopLevelCode scanner_init"
    by (simp_all add: scanner_init_def)
  have opener: "strings_HasPrefix (strings_TrimSpace ?opener) fence"
    by code_simp
  have rest: "\<forall>l\<in>set [''some text'']. strings_TrimSpace l \<noteq> fence"
    by code_simp
  from unclosed_block_fails [of unclosed_spoiler "[]" ?opener "[''some text'']" scanner_init]
    sp pre outside opener rest
  show ?thesis by blast
qed

section \<open>Code blocks outside a spoiler\<close>

text \<open>
  The scan of a code block that opens outside every block (not a spoiler opener) and is
  closed by a bare fence: whatever the lines between the two are, the scan stays in the
  code block up to the closing line, it writes the lines of the block as they are, and the
  text \<^verbatim>\<open>_EscapeMarkdown\<close> returns contains the text of the block, from the opening fence
  to the closing fence, as one piece.
\<close>

lemma code_block_contained:
  assumes sp: "strings_Split d newline = pre @ (opener # body @ [closer]) @ post"
    and pre: "scan_loop d (int (length (strings_Split d newline))) 0 pre scanner_init = Continue st"
    and outside: "\<not> inSpoiler st" "\<not> inTopLevelCode st"
    and opener: "strings_HasPrefix (strings_TrimSpace opener) fence"
      "\<not> strings_HasPrefix (strings_TrimSpace opener) fence_spoiler"
    and body: "\<forall>l\<in>set body. strings_TrimSpace l \<noteq> fence"
    and closer: "strings_TrimSpace closer = fence"
  shows "(\<forall>k\<le>length body. \<exists>st'.
            scan_loop d (int (length (strings_Split d newline))) 0 (pre @ opener # take k body)
              scanner_init = Continue st' \<and> inTopLevelCode st' \<and> \<not> inSpoiler st') \<and>
         scan_loop d (int (length (strings_Split d newline))) 0 (pre @ opener # body @ [closer])
              scanner_init =
           Continue (st\<lparr>result := result st @ join_lines (opener # body @ [closer]) @
                                 (if post = [] then [] else [newline])\<rparr>) \<and>
         (\<exists>r s ok. u_EscapeMarkdown d = Some (r @ join_lines (opener # body @ [closer]) @ s, ok))"
proof (intro conjI allI impI)
  let ?n = "int (length (strings_Split d newline))"
  let ?i = "0 + int (length pre)"
  let ?block = "opener # body @ [closer]"
  let ?nl = "if post = [] then [] else [newline]"
  let ?st1 = "st\<lparr>result := result st @ join_lines ?block @ ?nl\<rparr>"
  fix k assume "k \<le> length body"
  have "\<forall>l\<in>set (take k body). strings_TrimSpace l \<noteq> fence"
    using body by (auto dest: in_set_takeD)
  with outside opener have "scan_loop d ?n ?i (opener # take k body) st =
      Continue (st\<lparr>inTopLevelCode := True,
                 result := result st @ emitted ?n ?i (opener # take k body)\<rparr>)"
    by (rule scan_loop_code_open)
  then have "scan_loop d ?n 0 (pre @ opener # take k body) scanner_init =
      Continue (st\<lparr>inTopLevelCode := True,
                 result := result st @ emitted ?n ?i (opener # take k body)\<rparr>)"
    by (simp only: scan_loop_append pre flow.case)
  with outside show "\<exists>st'. scan_loop d ?n 0 (pre @ opener # take k body) scanner_init =
      Continue st' \<and> inTopLevelCode st' \<and> \<not> inSpoiler st'"
    by simp
next
  define n where "n = int (length (strings_Split d newline))"
  let ?i = "0 + int (length pre)"
  let ?block = "opener # body @ [closer]"
  let ?nl = "if post = [] then [] else [newline]"
  let ?st1 = "st\<lparr>result := result st @ join_lines ?block @ ?nl\<rparr>"
  note pre' = pre [folded n_def]
  have len: "n = ?i + int (length ?block) + int (length post)"
    by (simp add: sp n_def)
  have em: "emitted n ?i ?block = join_lines ?block @ ?nl"
    using len by (subst emitted_join_lines) auto
  have blk: "scan_loop d n ?i ?block st = Continue ?st1"
    using scan_loop_code_block [OF outside opener body closer, of d n ?i] by (simp only: em)
  have upto: "scan_loop d n 0 (pre @ ?block) scanner_init = Continue ?st1"
    by (simp only: scan_loop_append pre' flow.case blk)
  then show "scan_loop d (int (length (strings_Split d newline))) 0 (pre @ ?block) scanner_init
      = Continue ?st1"
    by (simp only: n_def)
  have "scan_loop d n 0 ((pre @ ?block) @ post) scanner_init =
      scan_loop d n (0 + int (length (pre @ ?block))) post ?st1"
    by (simp only: scan_loop_append [of d n 0 "pre @ ?block" post] upto flow.case)
  then have whole: "scan_loop d (int (length (strings_Split d newline))) 0
      (strings_Split d newline) scanner_init =
      scan_loop d n (0 + int (length (pre @ ?block))) post ?st1"
    by (simp add: sp n_def)
  have d: "d = join_lines pre @ (if pre = [] then [] else [newline]) @ join_lines ?block @
      ?nl @ join_lines post"
  proof -
    have "d = join_lines (pre @ (?block @ post))"
      using join_lines_Split [of d] by (simp add: sp)
    also have "\<dots> = join_lines pre @ (if pre = [] then [] else [newline]) @
        join_lines (?block @ post)"
      by (simp only: join_lines_append [of pre]) simp
    also have "join_lines (?block @ post) = join_lines ?block @ ?nl @ join_lines post"
      by (simp only: join_lines_append [of ?block]) simp
    finally show ?thesis .
  qed
  show "\<exists>r s ok. u_EscapeMarkdown d = Some (r @ join_lines ?block @ s, ok)"
  proof (cases "scan_loop d n (0 + int (length (pre @ ?block))) post ?st1")
    case Panic
    then show ?thesis using scan_loop_no_panic by blast
  next
    case (Return r)
    then have "r = (d, False)" by (rule scan_loop_Return)
    with Return whole have "u_EscapeMarkdown d = Some (d, False)"
      by (simp add: u_EscapeMarkdown_def Let_def)
    with d have "u_EscapeMarkdown d =
       Some ((join_lines pre @ (if pre = [] then [] else [newline])) @ join_lines ?block @
             (?nl @ join_lines post), False)"
      by simp
    then show ?thesis by blast
  next
    case (Continue st2)
    then obtain s where s: "result st2 = result ?st1 @ s"
      using scan_loop_result_grows by blast
    show ?thesis
    proof (cases "inSpoiler st2 \<or> inTopLevelCode st2")
      case True
      with Continue whole have "u_EscapeMarkdown d = Some (d, False)"
        by (simp add: u_EscapeMarkdown_def Let_def)
      with d have "u_EscapeMarkdown d =
         Some ((join_lines pre @ (if pre = [] then [] else [newline])) @ join_lines ?block @
               (?nl @ join_lines post), False)"
        by simp
      then show ?thesis by blast
    next
      case False
      with Continue whole have "u_EscapeMarkdown d = Some (result st2, True)"
        by (simp add: u_EscapeMarkdown_def Let_def)
      with s have "u_EscapeMarkdown d = Some (result st @ join_lines ?block @ (?nl @ s), True)"
        by simp
      then show ?thesis by blast
    qed
  qed
qed

lemma code_block_contained_example:
  "scan_loop code_block_doc (int (length (strings_Split code_block_doc newline))) 0
     ([''intro''] @ (fence @ ''go'') # [fence_spoiler @ '' x'', ''text''] @ [fence]) scanner_init =
     Continue (scanner_init\<lparr>result := ''intro'' @ [newline] @
        join_lines ((fence @ ''go'') # [fence_spoiler @ '' x'', ''text''] @ [fence]) @ [newline]\<rparr>) \<and>
   (\<exists>r s ok. u_EscapeMarkdown code_block_doc =
      Some (r @ join_lines ((fence @ ''go'') # [fence_spoiler @ '' x'', ''text''] @ [fence]) @ s, ok))"
proof -
  let ?opener = "fence @ ''go''"
  let ?body = "[fence_spoiler @ '' x'', ''text'']"
  let ?st = "scanner_init\<lparr>result := ''intro'' @ [newline]\<rparr>"
  have sp: "strings_Split code_block_doc newline =
      [''intro''] @ (?opener # ?body @ [fence]) @ [''after'']"
    by code_simp
  have pre: "scan_loop code_block_doc (int (length (strings_Split code_block_doc newline))) 0
      [''intro''] scanner_init = Continue ?st"
    by code_simp
  have outside: "\<not> inSpoiler ?st" "\<not> inTopLevelCode ?st"
    by (simp_all add: scanner_init_def)
  have opener: "strings_HasPrefix (strings_TrimSpace ?opener) fence"
    "\<not> strings_HasPrefix (strings_TrimSpace ?opener) fence_spoiler"
    by code_simp+
  have body: "\<forall>l\<in>set ?body. strings_TrimSpace l \<noteq> fence"
    by code_simp
  have closer: "strings_TrimSpace fence = fence"
    by code_simp
  from code_block_contained [OF sp pre outside opener body closer]
  show ?thesis by simp
qed

section \<open>The lines of a spoiler in \<^verbatim>\<open>processSpoilerContent\<close>\<close>

lemma spoiler_line_nested:
  assumes "inNestedCode st" "strings_TrimSpace l \<noteq> fence"
  shows "\<exists>st'. spoiler_line b l st = Continue st' \<and> inNestedCode st'"
  using assms by (simp add: spoiler_line_def Let_def)

lemma spoiler_line_opens:
  assumes "\<not> inNestedCode st" "fenceBalance st = 0"
    and "strings_HasPrefix (strings_TrimSpace l) fence"
  shows "\<exists>st'. spoiler_line b l st = Continue st' \<and> inNestedCode st'"
  using assms by (simp add: spoiler_line_def Let_def)

lemma spoiler_line_text:
  assumes "\<not> inNestedCode st" "\<not> strings_HasPrefix (strings_TrimSpace l) fence"
  shows "spoiler_line b l st = Continue (st\<lparr>out := (out st @ l) @ [newline]\<rparr>)"
  using assms by (simp add: spoiler_line_def Let_def)

lemma spoiler_loop_stays_open:
  assumes "0 \<le> i"
    and "\<forall>k. i \<le> k \<and> k < int (length lines) - 1 \<longrightarrow> strings_TrimSpace (lines ! nat k) \<noteq> fence"
    and "inNestedCode st \<or>
         (fenceBalance st = 0 \<and>
          (\<exists>k. i \<le> k \<and> k < int (length lines) - 1 \<and>
               strings_HasPrefix (strings_TrimSpace (lines ! nat k)) fence))"
  shows "\<exists>st'. spoiler_loop b lines i st = Continue st' \<and> inNestedCode st'"
  using assms
proof (induction b lines i st rule: spoiler_loop.induct)
  case (1 b lines i st)
  show ?case
  proof (cases "i < int (length lines) - 1")
    case False
    with 1(4) have "inNestedCode st" by auto
    with False show ?thesis by (subst spoiler_loop.simps) simp
  next
    case True
    with 1(2) have ix: "index lines i = Some (lines ! nat i)" by (simp add: index_def)
    from True 1(2,3) have nf: "strings_TrimSpace (lines ! nat i) \<noteq> fence" by simp
    have "\<exists>st1. spoiler_line b (lines ! nat i) st = Continue st1 \<and>
        (inNestedCode st1 \<or>
         (fenceBalance st1 = 0 \<and>
          (\<exists>k. i + 1 \<le> k \<and> k < int (length lines) - 1 \<and>
               strings_HasPrefix (strings_TrimSpace (lines ! nat k)) fence)))"
    proof (cases "inNestedCode st")
      case True
      with nf show ?thesis using spoiler_line_nested by blast
    next
      case False
      with 1(4) obtain k where bal: "fenceBalance st = 0"
        and k: "i \<le> k" "k < int (length lines) - 1"
          "strings_HasPrefix (strings_TrimSpace (lines ! nat k)) fence"
        by blast
      show ?thesis
      proof (cases "strings_HasPrefix (strings_TrimSpace (lines ! nat i)) fence")
        case True
        with False bal show ?thesis using spoiler_line_opens by blast
      next
        case nop: False
        with k have "k \<noteq> i" by auto
        with k have "i + 1 \<le> k" by simp
        with False nop bal k show ?thesis
          by (auto simp add: spoiler_line_text)
      qed
    qed
    then obtain st1 where s1: "spoiler_line b (lines ! nat i) st = Continue st1"
      and inv: "inNestedCode st1 \<or>
         (fenceBalance st1 = 0 \<and>
          (\<exists>k. i + 1 \<le> k \<and> k < int (length lines) - 1 \<and>
               strings_HasPrefix (strings_TrimSpace (lines ! nat k)) fence))"
      by blast
    have "\<exists>st'. spoiler_loop b lines (i + 1) st1 = Continue st' \<and> inNestedCode st'"
      using 1(1) [OF True ix s1] 1(2,3) inv by simp
    with True ix s1 show ?thesis by (subst spoiler_loop.simps) simp
  qed
qed

lemma spoiler_loop_text:
  assumes "\<not> inNestedCode st" "\<forall>l\<in>set mid. \<not> strings_HasPrefix (strings_TrimSpace l) fence"
  shows "spoiler_loop b (pre @ mid @ [z]) (int (length pre)) st =
    Continue (st\<lparr>out := out st @ concat (map (\<lambda>l. l @ [newline]) mid)\<rparr>)"
  using assms
proof (induction mid arbitrary: pre st)
  case Nil
  then show ?case by (subst spoiler_loop.simps) simp
next
  case (Cons m mid)
  let ?lines = "pre @ (m # mid) @ [z]"
  let ?st1 = "st\<lparr>out := (out st @ m) @ [newline]\<rparr>"
  have lt: "int (length pre) < int (length ?lines) - 1" by simp
  have ix: "index ?lines (int (length pre)) = Some m" by (simp add: index_def)
  have s1: "spoiler_line b m st = Continue ?st1"
    using Cons.prems by (simp add: spoiler_line_text)
  have "spoiler_loop b ((pre @ [m]) @ mid @ [z]) (int (length (pre @ [m]))) ?st1 =
      Continue (?st1\<lparr>out := out ?st1 @ concat (map (\<lambda>l. l @ [newline]) mid)\<rparr>)"
    using Cons.prems by (intro Cons.IH) simp_all
  then have s2: "spoiler_loop b ?lines (int (length pre) + 1) ?st1 =
      Continue (?st1\<lparr>out := out ?st1 @ concat (map (\<lambda>l. l @ [newline]) mid)\<rparr>)"
    by (simp add: add.commute)
  show ?case
    by (subst spoiler_loop.simps) (simp only: lt ix s1 s2 if_True option.case flow.case, simp)
qed

lemma spoiler_block_shape:
  "\<exists>z. join_lines ((fence_spoiler @ h) # inner @ [fence]) = backtick # z @ [backtick]"
proof -
  have "join_lines (((fence_spoiler @ h) # inner) @ [fence]) =
      join_lines ((fence_spoiler @ h) # inner) @ [newline] @ fence"
    by (simp only: join_lines_append) simp
  moreover have "\<exists>w. join_lines ((fence_spoiler @ h) # inner) = backtick # w"
    by (cases inner) simp_all
  ultimately obtain w where
    "join_lines ((fence_spoiler @ h) # inner @ [fence]) = backtick # (w @ [newline, backtick, backtick]) @ [backtick]"
    by auto
  then show ?thesis by blast
qed

lemma indented_block_shape:
  "\<exists>z. join_lines ((fence_spoiler @ h) # inner @ [ws @ fence]) = backtick # z @ [backtick]"
proof -
  have "join_lines (((fence_spoiler @ h) # inner) @ [ws @ fence]) =
      join_lines ((fence_spoiler @ h) # inner) @ [newline] @ ws @ fence"
    by (simp only: join_lines_append) simp
  moreover have "\<exists>w. join_lines ((fence_spoiler @ h) # inner) = backtick # w"
    by (cases inner) simp_all
  ultimately obtain w where
    "join_lines ((fence_spoiler @ h) # inner @ [ws @ fence]) =
       backtick # (w @ [newline] @ ws @ [backtick, backtick]) @ [backtick]"
    by auto
  then show ?thesis by blast
qed

text \<open>
  Three buffers, each a spoiler opener, lines none of which is a bare fence, and a
  closing line, followed by a newline or not. When one of the lines opens a nested fence,
  the buffer is rejected: the nested fence is open at the closing line. When none does,
  the buffer comes back without the newline after the closing line. When the closing
  fence is indented, the buffer is rejected by the check of its last line.
\<close>

lemma processSpoilerContent_nested_open:
  assumes nl: "newline \<notin> set h" "\<forall>l\<in>set inner. newline \<notin> set l"
    and nf: "\<forall>l\<in>set inner. strings_TrimSpace l \<noteq> fence"
    and op: "\<exists>l\<in>set inner. strings_HasPrefix (strings_TrimSpace l) fence"
    and tail: "tail = [] \<or> tail = [newline]"
  shows "processSpoilerContent (join_lines ((fence_spoiler @ h) # inner @ [fence]) @ tail) =
    Some (join_lines ((fence_spoiler @ h) # inner @ [fence]) @ tail, False)"
proof -
  let ?opener = "fence_spoiler @ h"
  let ?lines = "?opener # inner @ [fence]"
  let ?b = "join_lines ?lines @ tail"
  let ?st0 = "\<lparr>out = ?opener @ [newline], inNestedCode = False, fenceBalance = 0\<rparr>"
  obtain z where z: "join_lines ?lines = backtick # z @ [backtick]"
    using spoiler_block_shape by blast
  have trim: "strings_TrimSpace ?b = join_lines ?lines"
    using tail
  proof
    assume "tail = []"
    then show ?thesis by (simp only: z append_Nil2 TrimSpace_fenced)
  next
    assume "tail = [newline]"
    then show ?thesis by (simp only: z) (simp add: TrimSpace_block)
  qed
  have split: "strings_Split (join_lines ?lines) newline = ?lines"
    using nl by (intro Split_join_lines) auto
  have first: "index ?lines 0 = Some ?opener" by (simp add: index_def)
  have final: "index ?lines (int (length ?lines) - 1) = Some fence"
  proof -
    have e: "int (length ?lines) - 1 = int (Suc (length inner))" by simp
    have "?lines ! Suc (length inner) = fence" by (simp add: nth_append)
    then show ?thesis unfolding e index_def by (simp only: nat_int) simp
  qed
  have pre: "strings_HasPrefix ?opener fence_spoiler" by (simp add: strings_HasPrefix_def)
  have inner_at: "?lines ! nat k = inner ! (nat k - 1)"
    if "1 \<le> k" "k < int (length ?lines) - 1" for k
  proof -
    from that obtain j where j: "nat k = Suc j" "j < length inner"
      by (cases "nat k") auto
    then show ?thesis by (simp add: nth_append)
  qed
  have c1: "\<forall>k. 1 \<le> k \<and> k < int (length ?lines) - 1 \<longrightarrow>
      strings_TrimSpace (?lines ! nat k) \<noteq> fence"
  proof (intro allI impI)
    fix k assume k: "1 \<le> k \<and> k < int (length ?lines) - 1"
    then have "nat k - 1 < length inner" by auto
    with nf have "strings_TrimSpace (inner ! (nat k - 1)) \<noteq> fence" by simp
    moreover from k have "?lines ! nat k = inner ! (nat k - 1)" by (intro inner_at) simp_all
    ultimately show "strings_TrimSpace (?lines ! nat k) \<noteq> fence" by simp
  qed
  from op obtain j where j: "j < length inner"
    "strings_HasPrefix (strings_TrimSpace (inner ! j)) fence"
    by (auto simp add: in_set_conv_nth)
  have c2: "\<exists>k. 1 \<le> k \<and> k < int (length ?lines) - 1 \<and>
      strings_HasPrefix (strings_TrimSpace (?lines ! nat k)) fence"
  proof (intro exI conjI)
    show "1 \<le> int j + 1" by simp
    show "int j + 1 < int (length ?lines) - 1" using j(1) by simp
    have "?lines ! nat (int j + 1) = inner ! j" using j(1) by (simp add: nat_add_distrib nth_append)
    with j(2) show "strings_HasPrefix (strings_TrimSpace (?lines ! nat (int j + 1))) fence"
      by simp
  qed
  obtain st' where loop: "spoiler_loop ?b ?lines 1 ?st0 = Continue st'" and open': "inNestedCode st'"
    using spoiler_loop_stays_open [of 1 ?lines ?st0 ?b] c1 c2 by auto
  have ne: "join_lines ?lines \<noteq> []" by (simp only: z) simp
  have len: "\<not> int (length ?lines) < 2" "int (length ?lines) \<noteq> 0" by simp_all
  show ?thesis
    unfolding processSpoilerContent_def Let_def trim split
    by (simp only: ne len first final pre loop open' if_True if_False option.case flow.case
        simp_thms)
qed

lemma processSpoilerContent_plain:
  assumes nl: "newline \<notin> set h" "\<forall>l\<in>set inner. newline \<notin> set l"
    and plain: "\<forall>l\<in>set inner. \<not> strings_HasPrefix (strings_TrimSpace l) fence"
    and tail: "tail = [] \<or> tail = [newline]"
  shows "processSpoilerContent (join_lines ((fence_spoiler @ h) # inner @ [fence]) @ tail) =
    Some (join_lines ((fence_spoiler @ h) # inner @ [fence]), True)"
proof -
  let ?opener = "fence_spoiler @ h"
  let ?lines = "?opener # inner @ [fence]"
  let ?b = "join_lines ?lines @ tail"
  let ?st0 = "\<lparr>out = ?opener @ [newline], inNestedCode = False, fenceBalance = 0\<rparr>"
  let ?st' = "?st0\<lparr>out := out ?st0 @ concat (map (\<lambda>l. l @ [newline]) inner)\<rparr>"
  obtain z where z: "join_lines ?lines = backtick # z @ [backtick]"
    using spoiler_block_shape by blast
  have trim: "strings_TrimSpace ?b = join_lines ?lines"
    using tail
  proof
    assume "tail = []"
    then show ?thesis by (simp only: z append_Nil2 TrimSpace_fenced)
  next
    assume "tail = [newline]"
    then show ?thesis by (simp only: z) (simp add: TrimSpace_block)
  qed
  have split: "strings_Split (join_lines ?lines) newline = ?lines"
    using nl by (intro Split_join_lines) auto
  have first: "index ?lines 0 = Some ?opener" by (simp add: index_def)
  have final: "index ?lines (int (length ?lines) - 1) = Some fence"
  proof -
    have e: "int (length ?lines) - 1 = int (Suc (length inner))" by simp
    have "?lines ! Suc (length inner) = fence" by (simp add: nth_append)
    then show ?thesis unfolding e index_def by (simp only: nat_int) simp
  qed
  have pre: "strings_HasPrefix ?opener fence_spoiler" by (simp add: strings_HasPrefix_def)
  have "spoiler_loop ?b ([?opener] @ inner @ [fence]) (int (length [?opener])) ?st0 = Continue ?st'"
    using plain by (intro spoiler_loop_text) simp_all
  then have loop: "spoiler_loop ?b ?lines 1 ?st0 = Continue ?st'" by simp
  have flags: "inNestedCode ?st' = False" "fenceBalance ?st' = 0" by simp_all
  have res: "out ?st' @ fence = join_lines ?lines"
    by (simp only: join_lines_block) simp
  have ne: "join_lines ?lines \<noteq> []" by (simp only: z) simp
  have len: "\<not> int (length ?lines) < 2" "int (length ?lines) \<noteq> 0" by simp_all
  show ?thesis
    unfolding processSpoilerContent_def Let_def trim split
    by (simp only: ne len first final pre loop flags res if_True if_False option.case flow.case
        simp_thms)
qed

lemma processSpoilerContent_indented:
  assumes nl: "newline \<notin> set h" "\<forall>l\<in>set inner. newline \<notin> set l" "newline \<notin> set ws"
    and ws: "ws \<noteq> []"
    and tail: "tail = [] \<or> tail = [newline]"
  shows "strings_Split (strings_TrimSpace (join_lines ((fence_spoiler @ h) # inner @ [ws @ fence]) @ tail))
           newline = (fence_spoiler @ h) # inner @ [ws @ fence]"
    and "processSpoilerContent (join_lines ((fence_spoiler @ h) # inner @ [ws @ fence]) @ tail) =
           Some (join_lines ((fence_spoiler @ h) # inner @ [ws @ fence]) @ tail, False)"
proof -
  let ?opener = "fence_spoiler @ h"
  let ?lines = "?opener # inner @ [ws @ fence]"
  let ?b = "join_lines ?lines @ tail"
  obtain z where z: "join_lines ?lines = backtick # z @ [backtick]"
    using indented_block_shape by blast
  have trim: "strings_TrimSpace ?b = join_lines ?lines"
    using tail
  proof
    assume "tail = []"
    then show ?thesis by (simp only: z append_Nil2 TrimSpace_fenced)
  next
    assume "tail = [newline]"
    then show ?thesis by (simp only: z) (simp add: TrimSpace_block)
  qed
  have split: "strings_Split (join_lines ?lines) newline = ?lines"
    using nl by (intro Split_join_lines) auto
  show "strings_Split (strings_TrimSpace ?b) newline = ?lines"
    by (simp only: trim split)
  have first: "index ?lines 0 = Some ?opener" by (simp add: index_def)
  have final: "index ?lines (int (length ?lines) - 1) = Some (ws @ fence)"
  proof -
    have e: "int (length ?lines) - 1 = int (Suc (length inner))" by simp
    have "?lines ! Suc (length inner) = ws @ fence" by (simp add: nth_append)
    then show ?thesis unfolding e index_def by (simp only: nat_int) simp
  qed
  have pre: "strings_HasPrefix ?opener fence_spoiler" by (simp add: strings_HasPrefix_def)
  have neq: "ws @ fence \<noteq> fence" using ws by simp
  have ne: "join_lines ?lines \<noteq> []" by (simp only: z) simp
  have len: "\<not> int (length ?lines) < 2" "int (length ?lines) \<noteq> 0" by simp_all
  show "processSpoilerContent ?b = Some (?b, False)"
    unfolding processSpoilerContent_def Let_def trim split
    by (simp only: ne len first final pre neq if_True if_False option.case flow.case simp_thms)
qed

section \<open>Spoilers in the scan\<close>

lemma spoiler_closed_fails:
  assumes nl: "newline \<notin> set h" "\<forall>l\<in>set inner. newline \<notin> set l"
      "newline \<notin> set closer" "\<forall>l\<in>set post. newline \<notin> set l"
    and nf: "\<forall>l\<in>set inner. strings_TrimSpace l \<noteq> fence"
    and closer: "strings_TrimSpace closer = fence"
    and rejected: "processSpoilerContent
        (join_lines ((fence_spoiler @ h) # inner @ [closer]) @ (if post = [] then [] else [newline])) =
        Some (t, False)"
  shows "u_EscapeMarkdown (join_lines ((fence_spoiler @ h) # inner @ [closer] @ post)) =
    Some (join_lines ((fence_spoiler @ h) # inner @ [closer] @ post), False)"
    and "scan_loop (join_lines ((fence_spoiler @ h) # inner @ [closer] @ post))
           (int (length ((fence_spoiler @ h) # inner @ [closer] @ post))) 0
           ((fence_spoiler @ h) # inner) scanner_init =
         Continue (scanner_init\<lparr>inSpoiler := True,
            spoilerContent := join_lines ((fence_spoiler @ h) # inner) @ [newline]\<rparr>)"
proof -
  let ?opener = "fence_spoiler @ h"
  let ?block = "?opener # inner @ [closer]"
  let ?lines = "?opener # inner @ [closer] @ post"
  let ?tail = "if post = [] then [] else [newline]"
  define d where "d = join_lines ?lines"
  define n where "n = int (length ?lines)"
  have split: "strings_Split d newline = ?lines"
    unfolding d_def using nl by (intro Split_join_lines) auto
  let ?st1 = "scanner_init\<lparr>inSpoiler := True, spoilerContent := with_newline n 0 [] ?opener\<rparr>"
  have s1: "scan_line d n 0 ?opener scanner_init = Continue ?st1"
    by (intro scan_line_open_spoiler TrimSpace_fence_spoiler_prefix)
       (simp_all add: scanner_init_def)
  let ?st2 = "?st1\<lparr>spoilerContent := spoilerContent ?st1 @ emitted n (0 + 1) inner\<rparr>"
  have s2: "scan_loop d n (0 + 1) inner ?st1 = Continue ?st2"
    using nf by (intro scan_loop_collects) simp_all
  have "spoilerContent ?st2 = emitted n 0 (?opener # inner)" by simp
  also have "\<dots> = join_lines (?opener # inner) @
      (if 0 + int (length (?opener # inner)) < n then [newline] else [])"
    by (intro emitted_join_lines) (simp_all add: n_def)
  finally have sc: "spoilerContent ?st2 = join_lines (?opener # inner) @ [newline]"
    by (simp add: n_def)
  have "scan_loop d n 0 (?opener # inner) scanner_init = Continue ?st2"
    by (simp only: scan_loop.simps s1 flow.case s2)
  moreover have "?st2 = scanner_init\<lparr>inSpoiler := True,
      spoilerContent := join_lines (?opener # inner) @ [newline]\<rparr>"
    using sc by simp
  ultimately show "scan_loop (join_lines ?lines) (int (length ?lines)) 0 (?opener # inner) scanner_init =
      Continue (scanner_init\<lparr>inSpoiler := True,
        spoilerContent := join_lines (?opener # inner) @ [newline]\<rparr>)"
    by (simp only: d_def n_def)
  let ?i = "0 + 1 + int (length inner)"
  have content: "with_newline n ?i (spoilerContent ?st2) closer = join_lines ?block @ ?tail"
  proof -
    have "with_newline n ?i (spoilerContent ?st2) closer = emitted n 0 (?opener # (inner @ [closer]))"
      by (simp add: emitted_append with_newline_acc [of n _ "_ @ _"])
    also have "\<dots> = join_lines ?block @ (if 0 + int (length ?block) < n then [newline] else [])"
      by (intro emitted_join_lines) (simp_all add: n_def)
    also have "(0 + int (length ?block) < n) = (post \<noteq> [])"
      by (auto simp add: n_def)
    finally show ?thesis by simp
  qed
  from rejected have "processSpoilerContent (with_newline n ?i (spoilerContent ?st2) closer) =
      Some (t, False)"
    by (simp only: content)
  then have s3: "scan_line d n ?i closer ?st2 = Return (d, False)"
    using closer by (intro scan_line_close_fails) simp_all
  have "scan_loop d n 0 (?opener # (inner @ closer # post)) scanner_init = Return (d, False)"
    by (simp only: scan_loop.simps s1 flow.case scan_loop_append s2 s3)
  then have "scan_loop d (int (length (strings_Split d newline))) 0 (strings_Split d newline)
      scanner_init = Return (d, False)"
    by (simp add: split n_def)
  then have "u_EscapeMarkdown d = Some (d, False)"
    by (simp add: u_EscapeMarkdown_def Let_def)
  then show "u_EscapeMarkdown (join_lines ?lines) = Some (join_lines ?lines, False)"
    by (simp only: d_def)
qed

lemma spoiler_newline_dropped:
  assumes nl: "newline \<notin> set h" "\<forall>l\<in>set inner. newline \<notin> set l"
      "\<forall>l\<in>set post. newline \<notin> set l"
    and plain: "\<forall>l\<in>set inner. \<not> strings_HasPrefix (strings_TrimSpace l) fence"
      "\<forall>l\<in>set post. \<not> strings_HasPrefix (strings_TrimSpace l) fence"
  shows "u_EscapeMarkdown (join_lines (((fence_spoiler @ h) # inner @ [fence]) @ post)) =
    Some (join_lines ((fence_spoiler @ h) # inner @ [fence]) @ join_lines post, True)"
proof -
  let ?opener = "fence_spoiler @ h"
  let ?block = "?opener # inner @ [fence]"
  let ?lines = "?block @ post"
  let ?tail = "if post = [] then [] else [newline]"
  define d where "d = join_lines ?lines"
  define n where "n = int (length ?lines)"
  have split: "strings_Split d newline = ?lines"
    unfolding d_def using nl by (intro Split_join_lines) auto
  have nf: "\<forall>l\<in>set inner. strings_TrimSpace l \<noteq> fence"
    using plain(1) plain_not_fence by blast
  let ?st1 = "scanner_init\<lparr>inSpoiler := True, spoilerContent := with_newline n 0 [] ?opener\<rparr>"
  have s1: "scan_line d n 0 ?opener scanner_init = Continue ?st1"
    by (intro scan_line_open_spoiler TrimSpace_fence_spoiler_prefix)
       (simp_all add: scanner_init_def)
  let ?st2 = "?st1\<lparr>spoilerContent := spoilerContent ?st1 @ emitted n (0 + 1) inner\<rparr>"
  have s2: "scan_loop d n (0 + 1) inner ?st1 = Continue ?st2"
    using nf by (intro scan_loop_collects) simp_all
  let ?i = "0 + 1 + int (length inner)"
  have content: "with_newline n ?i (spoilerContent ?st2) fence = join_lines ?block @ ?tail"
  proof -
    have "with_newline n ?i (spoilerContent ?st2) fence = emitted n 0 (?opener # (inner @ [fence]))"
      by (simp add: emitted_append with_newline_acc [of n _ "_ @ _"])
    also have "\<dots> = join_lines ?block @ (if 0 + int (length ?block) < n then [newline] else [])"
      by (intro emitted_join_lines) (simp_all add: n_def)
    also have "(0 + int (length ?block) < n) = (post \<noteq> [])"
      by (auto simp add: n_def)
    finally show ?thesis by simp
  qed
  let ?st3 = "?st2\<lparr>spoilerContent := with_newline n ?i (spoilerContent ?st2) fence,
                    inSpoiler := False, result := result ?st2 @ join_lines ?block\<rparr>"
  have "processSpoilerContent (join_lines ?block @ ?tail) = Some (join_lines ?block, True)"
    using nl(1,2) plain(1) by (intro processSpoilerContent_plain) simp_all
  then have "processSpoilerContent (with_newline n ?i (spoilerContent ?st2) fence) =
      Some (join_lines ?block, True)"
    by (simp only: content)
  then have s3: "scan_line d n ?i fence ?st2 = Continue ?st3"
    by (intro scan_line_close TrimSpace_fence) simp_all
  have s4: "scan_loop d n (?i + 1) post ?st3 = Continue (?st3\<lparr>result := result ?st3 @ join_lines post\<rparr>)"
    using plain(2) by (intro scan_loop_plain) (simp_all add: n_def scanner_init_def)
  have "scan_loop d n 0 (?opener # (inner @ fence # post)) scanner_init =
      Continue (?st3\<lparr>result := result ?st3 @ join_lines post\<rparr>)"
    by (simp only: scan_loop.simps s1 flow.case scan_loop_append s2 s3 s4)
  then have "scan_loop d (int (length (strings_Split d newline))) 0 (strings_Split d newline)
      scanner_init = Continue (?st3\<lparr>result := result ?st3 @ join_lines post\<rparr>)"
    by (simp add: split n_def)
  then have "u_EscapeMarkdown d = Some (join_lines ?block @ join_lines post, True)"
    by (simp add: u_EscapeMarkdown_def Let_def scanner_init_def)
  then show ?thesis by (simp only: d_def)
qed

text \<open>
  Claim C1. The documents of the claim: a spoiler opener with a heading, the fence with a
  language tag, lines of code, the bare fence that closes the nested block, the bare fence
  that closes the spoiler. For each of them \<^verbatim>\<open>_EscapeMarkdown\<close> returns the input and
  \<open>ok = false\<close>, not the text with the inner fences rewritten: the scan takes the first
  bare fence, which closes the nested block, for the closing fence of the spoiler, and
  \<^verbatim>\<open>processSpoilerContent\<close> finds the nested block open at the end of its buffer.
  The language tag is not blank, and no line of code is a bare fence.
\<close>

theorem nested_code_block_rejected:
  assumes "newline \<notin> set heading" "newline \<notin> set lang" "\<forall>c\<in>set code. newline \<notin> set c"
    and "strings_TrimSpace (fence @ lang) \<noteq> fence"
    and "\<forall>c\<in>set code. strings_TrimSpace c \<noteq> fence"
  shows "u_EscapeMarkdown
           (join_lines ((fence_spoiler @ '' '' @ heading) # ((fence @ lang) # code) @ [fence] @ [fence])) =
         Some (join_lines ((fence_spoiler @ '' '' @ heading) # ((fence @ lang) # code) @ [fence] @ [fence]),
               False)"
proof -
  let ?inner = "(fence @ lang) # code"
  have nl: "newline \<notin> set ('' '' @ heading)" "\<forall>l\<in>set ?inner. newline \<notin> set l"
    "newline \<notin> set fence" "\<forall>l\<in>set [fence]. newline \<notin> set l"
    using assms(1-3) by simp_all
  have nf: "\<forall>l\<in>set ?inner. strings_TrimSpace l \<noteq> fence"
    using assms(4,5) by simp
  have "strings_HasPrefix (strings_TrimSpace (fence @ lang)) fence"
    by (rule TrimSpace_fence_prefix)
  then have op: "\<exists>l\<in>set ?inner. strings_HasPrefix (strings_TrimSpace l) fence"
    by simp
  have "processSpoilerContent
      (join_lines ((fence_spoiler @ '' '' @ heading) # ?inner @ [fence]) @ [newline]) =
      Some (join_lines ((fence_spoiler @ '' '' @ heading) # ?inner @ [fence]) @ [newline], False)"
    using nl(1,2) nf op by (intro processSpoilerContent_nested_open) simp_all
  then have rejected: "processSpoilerContent
      (join_lines ((fence_spoiler @ '' '' @ heading) # ?inner @ [fence]) @
         (if [fence] = [] then [] else [newline])) =
      Some (join_lines ((fence_spoiler @ '' '' @ heading) # ?inner @ [fence]) @ [newline], False)"
    by simp
  show ?thesis
    by (rule spoiler_closed_fails(1) [OF nl nf TrimSpace_fence rejected])
qed

theorem nested_code_block_rejected_witness:
  "u_EscapeMarkdown nested_example = Some (nested_example, False) \<and>
   nested_example_expected \<noteq> nested_example"
proof -
  let ?code = "[''fmt.Println(\"Hello\")'']"
  have e: "nested_example =
      join_lines ((fence_spoiler @ '' '' @ ''Code Example'') # ((fence @ ''go'') # ?code) @ [fence] @ [fence])"
    by code_simp
  have h: "newline \<notin> set ''Code Example''" "newline \<notin> set ''go''"
    "\<forall>c\<in>set ?code. newline \<notin> set c"
    "strings_TrimSpace (fence @ ''go'') \<noteq> fence"
    "\<forall>c\<in>set ?code. strings_TrimSpace c \<noteq> fence"
    by code_simp+
  have "nested_example_expected \<noteq> nested_example" by code_simp
  with nested_code_block_rejected [OF h] show ?thesis by (simp only: e [symmetric]) simp
qed

text \<open>
  Claim C4. A closed spoiler without nested fences, followed by at least one line of plain
  text: \<^verbatim>\<open>_EscapeMarkdown\<close> returns \<open>ok = true\<close> and the input without the newline
  that follows the closing fence of the spoiler, so that the next line is joined to the
  fence.
\<close>

theorem newline_after_spoiler_dropped:
  assumes "newline \<notin> set h" "\<forall>l\<in>set inner. newline \<notin> set l"
      "\<forall>l\<in>set post. newline \<notin> set l"
    and "\<forall>l\<in>set inner. \<not> strings_HasPrefix (strings_TrimSpace l) fence"
      "\<forall>l\<in>set post. \<not> strings_HasPrefix (strings_TrimSpace l) fence"
    and "post \<noteq> []"
  shows "u_EscapeMarkdown
           (join_lines ((fence_spoiler @ h) # inner @ [fence]) @ newline # join_lines post) =
         Some (join_lines ((fence_spoiler @ h) # inner @ [fence]) @ join_lines post, True)"
proof -
  have "join_lines (((fence_spoiler @ h) # inner @ [fence]) @ post) =
      join_lines ((fence_spoiler @ h) # inner @ [fence]) @ newline # join_lines post"
    using assms(6) by (simp only: join_lines_append) simp
  with spoiler_newline_dropped [OF assms(1-5)] show ?thesis by simp
qed

theorem newline_after_spoiler_dropped_witness:
  "u_EscapeMarkdown spoiler_then_text = Some (fence_spoiler @ '' a'' @ [newline] @ fence @ ''text'', True)"
proof -
  have e: "spoiler_then_text =
      join_lines ((fence_spoiler @ '' a'') # [] @ [fence]) @ newline # join_lines [''text'']"
    by code_simp
  have h: "newline \<notin> set '' a''" "\<forall>l\<in>set ([] :: string list). newline \<notin> set l"
    "\<forall>l\<in>set [''text'']. newline \<notin> set l"
    "\<forall>l\<in>set ([] :: string list). \<not> strings_HasPrefix (strings_TrimSpace l) fence"
    "\<forall>l\<in>set [''text'']. \<not> strings_HasPrefix (strings_TrimSpace l) fence"
    "[''text''] \<noteq> []"
    by code_simp+
  from newline_after_spoiler_dropped [OF h] show ?thesis by (simp only: e [symmetric]) simp
qed

text \<open>
  Claim C5. A closed spoiler without nested fences, followed by two newlines:
  \<^verbatim>\<open>_EscapeMarkdown\<close> returns \<open>ok = true\<close> and the text with one newline less, and on
  that text it returns \<open>ok = true\<close> and again a text with one newline less. The first
  output is not a fixed point.
\<close>

theorem escape_not_idempotent:
  assumes "newline \<notin> set h" "\<forall>l\<in>set inner. newline \<notin> set l"
    and "\<forall>l\<in>set inner. \<not> strings_HasPrefix (strings_TrimSpace l) fence"
  shows "u_EscapeMarkdown (join_lines ((fence_spoiler @ h) # inner @ [fence]) @ [newline, newline]) =
           Some (join_lines ((fence_spoiler @ h) # inner @ [fence]) @ [newline], True) \<and>
         u_EscapeMarkdown (join_lines ((fence_spoiler @ h) # inner @ [fence]) @ [newline]) =
           Some (join_lines ((fence_spoiler @ h) # inner @ [fence]), True) \<and>
         join_lines ((fence_spoiler @ h) # inner @ [fence]) @ [newline] \<noteq>
           join_lines ((fence_spoiler @ h) # inner @ [fence])"
proof -
  let ?block = "(fence_spoiler @ h) # inner @ [fence]"
  have two: "\<forall>l\<in>set [[], []]. newline \<notin> set l"
    "\<forall>l\<in>set [[], []]. \<not> strings_HasPrefix (strings_TrimSpace l) fence"
    and one: "\<forall>l\<in>set [[]]. newline \<notin> set l"
    "\<forall>l\<in>set [[]]. \<not> strings_HasPrefix (strings_TrimSpace l) fence"
    by (simp_all add: empty_line_plain)
  have j2: "join_lines (?block @ [[], []]) = join_lines ?block @ [newline, newline]"
    by (simp only: join_lines_append) simp
  have j1: "join_lines (?block @ [[]]) = join_lines ?block @ [newline]"
    by (simp only: join_lines_append) simp
  have "u_EscapeMarkdown (join_lines (?block @ [[], []])) =
      Some (join_lines ?block @ join_lines [[], []], True)"
    using assms two by (intro spoiler_newline_dropped)
  moreover have "u_EscapeMarkdown (join_lines (?block @ [[]])) =
      Some (join_lines ?block @ join_lines [[]], True)"
    using assms one by (intro spoiler_newline_dropped)
  ultimately show ?thesis by (simp only: j1 j2) simp
qed

theorem escape_not_idempotent_witness:
  "u_EscapeMarkdown spoiler_then_blank = Some (fence_spoiler @ '' a'' @ [newline] @ fence @ [newline], True) \<and>
   u_EscapeMarkdown (fence_spoiler @ '' a'' @ [newline] @ fence @ [newline]) =
     Some (fence_spoiler @ '' a'' @ [newline] @ fence, True)"
proof -
  have j: "join_lines ((fence_spoiler @ '' a'') # [] @ [fence]) = fence_spoiler @ '' a'' @ [newline] @ fence"
    by simp
  have h: "newline \<notin> set '' a''" "\<forall>l\<in>set ([] :: string list). newline \<notin> set l"
    "\<forall>l\<in>set ([] :: string list). \<not> strings_HasPrefix (strings_TrimSpace l) fence"
    by simp_all
  from escape_not_idempotent [OF h] show ?thesis unfolding j by (simp add: spoiler_then_blank_def)
qed

lemma scan_loop_spoiler_block:
  assumes nl: "newline \<notin> set h" "\<forall>l\<in>set inner. newline \<notin> set l"
    and plain: "\<forall>l\<in>set inner. \<not> strings_HasPrefix (strings_TrimSpace l) fence"
    and n: "int (length ((fence_spoiler @ h) # inner @ [fence])) \<le> n"
  shows "scan_loop md n 0 ((fence_spoiler @ h) # inner @ [fence]) scanner_init =
    Continue (scanner_init\<lparr>
      spoilerContent := join_lines ((fence_spoiler @ h) # inner @ [fence]) @
        (if int (length ((fence_spoiler @ h) # inner @ [fence])) < n then [newline] else []),
      result := join_lines ((fence_spoiler @ h) # inner @ [fence])\<rparr>)"
proof -
  let ?opener = "fence_spoiler @ h"
  let ?block = "?opener # inner @ [fence]"
  let ?tail = "if int (length ?block) < n then [newline] else []"
  have nf: "\<forall>l\<in>set inner. strings_TrimSpace l \<noteq> fence"
    using plain plain_not_fence by blast
  let ?st1 = "scanner_init\<lparr>inSpoiler := True, spoilerContent := with_newline n 0 [] ?opener\<rparr>"
  have s1: "scan_line md n 0 ?opener scanner_init = Continue ?st1"
    by (intro scan_line_open_spoiler TrimSpace_fence_spoiler_prefix)
       (simp_all add: scanner_init_def)
  let ?st2 = "?st1\<lparr>spoilerContent := spoilerContent ?st1 @ emitted n (0 + 1) inner\<rparr>"
  have s2: "scan_loop md n (0 + 1) inner ?st1 = Continue ?st2"
    using nf by (intro scan_loop_collects) simp_all
  let ?i = "0 + 1 + int (length inner)"
  have content: "with_newline n ?i (spoilerContent ?st2) fence = join_lines ?block @ ?tail"
  proof -
    have "with_newline n ?i (spoilerContent ?st2) fence = emitted n 0 (?opener # (inner @ [fence]))"
      by (simp add: emitted_append with_newline_acc [of n _ "_ @ _"])
    also have "\<dots> = join_lines ?block @ (if 0 + int (length ?block) < n then [newline] else [])"
      using n by (intro emitted_join_lines) simp_all
    finally show ?thesis by simp
  qed
  let ?st3 = "?st2\<lparr>spoilerContent := with_newline n ?i (spoilerContent ?st2) fence,
                    inSpoiler := False, result := result ?st2 @ join_lines ?block\<rparr>"
  have tail: "?tail = [] \<or> ?tail = [newline]" by simp
  have "processSpoilerContent (join_lines ?block @ ?tail) = Some (join_lines ?block, True)"
    using nl plain tail by (rule processSpoilerContent_plain)
  then have "processSpoilerContent (with_newline n ?i (spoilerContent ?st2) fence) =
      Some (join_lines ?block, True)"
    by (simp only: content)
  then have s3: "scan_line md n ?i fence ?st2 = Continue ?st3"
    by (intro scan_line_close TrimSpace_fence) simp_all
  have "scan_loop md n 0 (?opener # (inner @ [fence])) scanner_init = Continue ?st3"
    by (simp only: scan_loop.simps s1 flow.case scan_loop_append s2 s3)
  moreover have "?st3 = scanner_init\<lparr>spoilerContent := join_lines ?block @ ?tail,
      result := join_lines ?block\<rparr>"
    by (simp only: content) (simp add: scanner_init_def)
  ultimately show ?thesis by simp
qed

lemma join_lines_glue:
  "join_lines (xs @ [a]) @ join_lines (b # ys) = join_lines (xs @ (a @ b) # ys)"
proof -
  have "join_lines ((a @ b) # ys) = a @ join_lines (b # ys)" by (cases ys) simp_all
  then show ?thesis by (simp only: join_lines_append) simp
qed

text \<open>
  Claim C8. A closed spoiler without nested fences, directly followed by a code block
  (opening fence, lines none of which is a bare fence, closing fence) and by plain lines.
  The code block opens outside every block, and \<^verbatim>\<open>_EscapeMarkdown\<close> returns
  \<open>ok = true\<close>; but the newline after the closing fence of the spoiler is missing, so
  the line of the output at the place of the opening fence of the code block is the
  closing fence of the spoiler followed by that opening fence: the opening line of the
  block is not a line of the output.
\<close>

theorem code_block_after_spoiler_glued:
  assumes nl: "newline \<notin> set h" "\<forall>l\<in>set inner. newline \<notin> set l"
      "newline \<notin> set opener" "\<forall>l\<in>set body. newline \<notin> set l" "newline \<notin> set closer"
      "\<forall>l\<in>set post. newline \<notin> set l"
    and inner: "\<forall>l\<in>set inner. \<not> strings_HasPrefix (strings_TrimSpace l) fence"
    and opener: "strings_HasPrefix (strings_TrimSpace opener) fence"
      "\<not> strings_HasPrefix (strings_TrimSpace opener) fence_spoiler"
    and body: "\<forall>l\<in>set body. strings_TrimSpace l \<noteq> fence"
    and closer: "strings_TrimSpace closer = fence"
    and post: "\<forall>l\<in>set post. \<not> strings_HasPrefix (strings_TrimSpace l) fence"
  shows "strings_Split
           (join_lines (((fence_spoiler @ h) # inner @ [fence]) @ (opener # body @ [closer]) @ post))
           newline =
         ((fence_spoiler @ h) # inner @ [fence]) @ (opener # body @ [closer]) @ post \<and>
         (\<exists>st. scan_loop
           (join_lines (((fence_spoiler @ h) # inner @ [fence]) @ (opener # body @ [closer]) @ post))
           (int (length (((fence_spoiler @ h) # inner @ [fence]) @ (opener # body @ [closer]) @ post)))
           0 ((fence_spoiler @ h) # inner @ [fence]) scanner_init = Continue st \<and>
           \<not> inSpoiler st \<and> \<not> inTopLevelCode st) \<and>
         u_EscapeMarkdown
           (join_lines (((fence_spoiler @ h) # inner @ [fence]) @ (opener # body @ [closer]) @ post)) =
         Some (join_lines (((fence_spoiler @ h) # inner) @ (fence @ opener) # body @ [closer] @ post),
               True) \<and>
         strings_Split
           (join_lines (((fence_spoiler @ h) # inner) @ (fence @ opener) # body @ [closer] @ post))
           newline =
         ((fence_spoiler @ h) # inner) @ (fence @ opener) # body @ [closer] @ post \<and>
         fence @ opener \<noteq> opener"
proof (intro conjI)
  let ?sp = "(fence_spoiler @ h) # inner @ [fence]"
  let ?cb = "opener # body @ [closer]"
  let ?lines = "?sp @ ?cb @ post"
  let ?out = "((fence_spoiler @ h) # inner) @ (fence @ opener) # body @ [closer] @ post"
  define d where "d = join_lines ?lines"
  define n where "n = int (length ?lines)"
  show split: "strings_Split (join_lines ?lines) newline = ?lines"
    using nl by (intro Split_join_lines) auto
  show "strings_Split (join_lines ?out) newline = ?out"
    using nl by (intro Split_join_lines) auto
  show "fence @ opener \<noteq> opener" by simp
  let ?st3 = "scanner_init\<lparr>
      spoilerContent := join_lines ?sp @ (if int (length ?sp) < n then [newline] else []),
      result := join_lines ?sp\<rparr>"
  have s3: "scan_loop d n 0 ?sp scanner_init = Continue ?st3"
    using nl(1,2) inner by (intro scan_loop_spoiler_block) (simp_all add: n_def)
  have outside: "\<not> inSpoiler ?st3" "\<not> inTopLevelCode ?st3"
    by (simp_all add: scanner_init_def)
  from s3 outside
  show "\<exists>st. scan_loop (join_lines ?lines) (int (length ?lines)) 0 ?sp scanner_init = Continue st \<and>
      \<not> inSpoiler st \<and> \<not> inTopLevelCode st"
    unfolding d_def n_def by blast
  let ?i = "0 + int (length ?sp)"
  define E where "E = emitted n ?i ?cb"
  have em: "E = join_lines ?cb @ (if post = [] then [] else [newline])"
  proof -
    have "emitted n ?i ?cb = join_lines ?cb @ (if ?i + int (length ?cb) < n then [newline] else [])"
      by (intro emitted_join_lines) (simp_all add: n_def)
    also have "(?i + int (length ?cb) < n) = (post \<noteq> [])" by (auto simp add: n_def)
    finally have "emitted n ?i ?cb = join_lines ?cb @ (if post = [] then [] else [newline])"
      by (cases "post = []") simp_all
    then show ?thesis by (simp only: E_def)
  qed
  let ?st4 = "?st3\<lparr>result := result ?st3 @ E\<rparr>"
  have s4: "scan_loop d n ?i ?cb ?st3 = Continue ?st4"
    unfolding E_def using outside opener body closer by (rule scan_loop_code_block)
  let ?j = "?i + int (length ?cb)"
  have s5: "scan_loop d n ?j post ?st4 = Continue (?st4\<lparr>result := result ?st4 @ join_lines post\<rparr>)"
    using post by (intro scan_loop_plain) (simp_all add: n_def scanner_init_def)
  have "scan_loop d n 0 (?sp @ ?cb @ post) scanner_init =
      Continue (?st4\<lparr>result := result ?st4 @ join_lines post\<rparr>)"
    by (simp only: scan_loop_append s3 s4 s5 flow.case)
  then have whole: "scan_loop d (int (length (strings_Split d newline))) 0 (strings_Split d newline)
      scanner_init = Continue (?st4\<lparr>result := result ?st4 @ join_lines post\<rparr>)"
    unfolding d_def split n_def .
  have cbp: "join_lines ?cb @ (if post = [] then [] else [newline]) @ join_lines post
      = join_lines (?cb @ post)"
    by (simp only: join_lines_append [of ?cb]) simp
  have "result (?st4\<lparr>result := result ?st4 @ join_lines post\<rparr>) =
      join_lines ?sp @ E @ join_lines post"
    by simp
  also have "\<dots> = join_lines ?sp @ join_lines (?cb @ post)"
    by (simp only: em cbp append_assoc)
  also have "\<dots> = join_lines ?out"
    using join_lines_glue [of "(fence_spoiler @ h) # inner" fence opener "body @ [closer] @ post"]
    by simp
  finally have res: "result (?st4\<lparr>result := result ?st4 @ join_lines post\<rparr>) = join_lines ?out" .
  have flags: "\<not> (inSpoiler (?st4\<lparr>result := result ?st4 @ join_lines post\<rparr>) \<or>
      inTopLevelCode (?st4\<lparr>result := result ?st4 @ join_lines post\<rparr>))"
    by (simp add: scanner_init_def)
  have "u_EscapeMarkdown d = Some (join_lines ?out, True)"
    unfolding u_EscapeMarkdown_def Let_def whole
    by (simp only: flow.case res flags if_False)
  then show "u_EscapeMarkdown (join_lines ?lines) = Some (join_lines ?out, True)"
    by (simp only: d_def)
qed

theorem code_block_after_spoiler_glued_witness:
  "u_EscapeMarkdown spoiler_then_code =
     Some (fence_spoiler @ '' a'' @ [newline] @ fence @ fence @ ''go'' @ [newline] @ ''x'' @ [newline] @ fence,
           True) \<and>
   strings_Split spoiler_then_code newline = [fence_spoiler @ '' a'', fence, fence @ ''go'', ''x'', fence] \<and>
   strings_Split
     (fence_spoiler @ '' a'' @ [newline] @ fence @ fence @ ''go'' @ [newline] @ ''x'' @ [newline] @ fence)
     newline = [fence_spoiler @ '' a'', fence @ fence @ ''go'', ''x'', fence] \<and>
   fence @ ''go'' \<notin> set (strings_Split
     (fence_spoiler @ '' a'' @ [newline] @ fence @ fence @ ''go'' @ [newline] @ ''x'' @ [newline] @ fence)
     newline)"
proof -
  have h: "newline \<notin> set '' a''" "\<forall>l\<in>set ([] :: string list). newline \<notin> set l"
    "newline \<notin> set (fence @ ''go'')" "\<forall>l\<in>set [''x'']. newline \<notin> set l" "newline \<notin> set fence"
    "\<forall>l\<in>set ([] :: string list). newline \<notin> set l"
    "\<forall>l\<in>set ([] :: string list). \<not> strings_HasPrefix (strings_TrimSpace l) fence"
    by simp_all
  have o: "strings_HasPrefix (strings_TrimSpace (fence @ ''go'')) fence"
    "\<not> strings_HasPrefix (strings_TrimSpace (fence @ ''go'')) fence_spoiler"
    "\<forall>l\<in>set [''x'']. strings_TrimSpace l \<noteq> fence"
    "strings_TrimSpace fence = fence"
    by code_simp+
  have p: "\<forall>l\<in>set ([] :: string list). \<not> strings_HasPrefix (strings_TrimSpace l) fence"
    by simp
  have i: "join_lines (((fence_spoiler @ '' a'') # [] @ [fence]) @ ((fence @ ''go'') # [''x''] @ [fence]) @ [])
      = spoiler_then_code"
    by (simp add: spoiler_then_code_def)
  have j: "join_lines (((fence_spoiler @ '' a'') # []) @ (fence @ fence @ ''go'') # [''x''] @ [fence] @ [])
      = fence_spoiler @ '' a'' @ [newline] @ fence @ fence @ ''go'' @ [newline] @ ''x'' @ [newline] @ fence"
    by simp
  have k: "fence @ ''go'' \<notin> set [fence_spoiler @ '' a'', fence @ fence @ ''go'', ''x'', fence]"
    by simp
  from code_block_after_spoiler_glued [OF h o p] k show ?thesis unfolding i j by simp
qed

text \<open>
  Claim C9. A spoiler whose closing fence is indented by white space \<open>ws\<close>. The scan
  collects the opener and the lines after it, and closes the spoiler at the indented
  fence, whose trimmed form is the bare fence. The lines of the trimmed buffer it hands
  to \<^verbatim>\<open>processSpoilerContent\<close> are the lines of the spoiler, the last of them is the
  indented fence and not the bare fence, so the check of the last line fails and
  \<^verbatim>\<open>_EscapeMarkdown\<close> returns \<open>ok = false\<close>.
\<close>

theorem indented_closer_rejected:
  assumes nl: "newline \<notin> set h" "\<forall>l\<in>set inner. newline \<notin> set l" "newline \<notin> set ws"
      "\<forall>l\<in>set post. newline \<notin> set l"
    and nf: "\<forall>l\<in>set inner. strings_TrimSpace l \<noteq> fence"
    and ws: "ws \<noteq> []" "strings_TrimSpace (ws @ fence) = fence"
  shows "scan_loop (join_lines ((fence_spoiler @ h) # inner @ [ws @ fence] @ post))
           (int (length ((fence_spoiler @ h) # inner @ [ws @ fence] @ post))) 0
           ((fence_spoiler @ h) # inner) scanner_init =
         Continue (scanner_init\<lparr>inSpoiler := True,
            spoilerContent := join_lines ((fence_spoiler @ h) # inner) @ [newline]\<rparr>) \<and>
         strings_Split (strings_TrimSpace
             (join_lines ((fence_spoiler @ h) # inner @ [ws @ fence]) @
                (if post = [] then [] else [newline])))
           newline = (fence_spoiler @ h) # inner @ [ws @ fence] \<and>
         ws @ fence \<noteq> fence \<and>
         processSpoilerContent
           (join_lines ((fence_spoiler @ h) # inner @ [ws @ fence]) @
              (if post = [] then [] else [newline])) =
         Some (join_lines ((fence_spoiler @ h) # inner @ [ws @ fence]) @
              (if post = [] then [] else [newline]), False) \<and>
         u_EscapeMarkdown (join_lines ((fence_spoiler @ h) # inner @ [ws @ fence] @ post)) =
         Some (join_lines ((fence_spoiler @ h) # inner @ [ws @ fence] @ post), False)"
proof -
  let ?tail = "if post = [] then [] else [newline]"
  have tail: "?tail = [] \<or> ?tail = [newline]" by simp
  note p = processSpoilerContent_indented [OF nl(1-3) ws(1) tail]
  have nlc: "newline \<notin> set (ws @ fence)" using nl(3) by simp
  note f = spoiler_closed_fails [OF nl(1,2) nlc nl(4) nf ws(2) p(2)]
  from ws(1) have "ws @ fence \<noteq> fence" by simp
  with p f show ?thesis by blast
qed

theorem indented_closer_rejected_witness:
  "processSpoilerContent indented_closer = Some (indented_closer, False) \<and>
   u_EscapeMarkdown indented_closer = Some (indented_closer, False)"
proof -
  have j: "join_lines ((fence_spoiler @ '' a'') # [] @ ['' '' @ fence] @ []) = indented_closer"
    "join_lines ((fence_spoiler @ '' a'') # [] @ ['' '' @ fence]) @ (if ([] :: string list) = [] then [] else [newline])
       = indented_closer"
    by (simp_all add: indented_closer_def)
  have h: "newline \<notin> set '' a''" "\<forall>l\<in>set ([] :: string list). newline \<notin> set l"
    "newline \<notin> set '' ''" "\<forall>l\<in>set ([] :: string list). newline \<notin> set l"
    "\<forall>l\<in>set ([] :: string list). strings_TrimSpace l \<noteq> fence"
    "'' '' \<noteq> []"
    by simp_all
  have t: "strings_TrimSpace ('' '' @ fence) = fence" by code_simp
  from indented_closer_rejected [OF h t] show ?thesis by (simp only: j)
qed

section \<open>The exported functions\<close>

lemma call_table_no_escaper:
  "list_all (\<lambda>(f, gs). ''_EscapeMarkdown'' \<notin> set gs) call_table"
  by code_simp

lemma no_direct_call: "''_EscapeMarkdown'' \<notin> set (calls f)"
  using call_table_no_escaper by (auto simp add: calls_def list_all_iff)

lemma no_call_chain: "\<not> tranclp calls_directly f ''_EscapeMarkdown''"
proof
  assume "tranclp calls_directly f ''_EscapeMarkdown''"
  then obtain g where "calls_directly g ''_EscapeMarkdown''"
    by (cases rule: tranclp.cases) auto
  then show False using no_direct_call by (simp add: calls_directly_def)
qed

text \<open>
  Claim C3. The exported \<^verbatim>\<open>EscapeMarkdown\<close> returns its argument and a nil error for
  every input: it rewrites no fence and checks nothing. The functions that call it,
  directly or through another function (\<^verbatim>\<open>CodeBlock\<close>, \<^verbatim>\<open>MarkdownBlock\<close>,
  \<^verbatim>\<open>SpoilerEscaped\<close>, \<^verbatim>\<open>SpoilerEscapedTilde\<close>, \<^verbatim>\<open>SpoilerEscapedFence\<close>), therefore
  put the text between their fences as it is. No function of the repository calls
  \<^verbatim>\<open>_EscapeMarkdown\<close>, and no chain of calls leads from an exported function to it;
  \<^verbatim>\<open>EscapeMarkdown\<close> calls no function, \<^verbatim>\<open>_EscapeMarkdown\<close> calls
  \<^verbatim>\<open>processSpoilerContent\<close>. The two are different functions: on an unclosed spoiler
  the state machine reports a failure, and on a spoiler followed by text it returns
  another text.
\<close>

theorem EscapeMarkdown_identity:
  "EscapeMarkdown v = (v, None) \<and>
   CodeBlock language text = fence @ language @ [newline] @ text @ [newline] @ fence \<and>
   MarkdownBlock text = fence @ ''markdown'' @ [newline] @ text @ [newline] @ fence \<and>
   SpoilerEscaped heading text fc = fc @ ''spoiler '' @ heading @ [newline] @ text @ [newline] @ fc \<and>
   SpoilerEscapedTilde heading text =
     tildes @ ''spoiler '' @ heading @ [newline] @ text @ [newline] @ tildes \<and>
   SpoilerEscapedFence heading text =
     fence @ ''spoiler '' @ heading @ [newline] @ text @ [newline] @ fence \<and>
   (\<forall>f. ''_EscapeMarkdown'' \<notin> set (calls f)) \<and>
   (\<forall>f. go_exported f \<longrightarrow> \<not> tranclp calls_directly f ''_EscapeMarkdown'') \<and>
   calls ''EscapeMarkdown'' = [] \<and>
   calls ''_EscapeMarkdown'' = [''processSpoilerContent''] \<and>
   u_EscapeMarkdown unclosed_spoiler \<noteq> Some (fst (EscapeMarkdown unclosed_spoiler), True) \<and>
   u_EscapeMarkdown spoiler_then_text \<noteq> Some (fst (EscapeMarkdown spoiler_then_text), True)"
proof -
  have "u_EscapeMarkdown unclosed_spoiler \<noteq> Some (fst (EscapeMarkdown unclosed_spoiler), True)"
    by code_simp
  moreover
  have "u_EscapeMarkdown spoiler_then_text \<noteq> Some (fst (EscapeMarkdown spoiler_then_text), True)"
    by code_simp
  moreover have "calls ''EscapeMarkdown'' = []" by code_simp
  moreover have "calls ''_EscapeMarkdown'' = [''processSpoilerContent'']" by code_simp
  ultimately show ?thesis
    using no_direct_call no_call_chain
    by (simp add: EscapeMarkdown_def CodeBlock_def WriteCodeBlock_def SpoilerEscaped_def
        MarkdownBlock_def WriteMarkdownBlock_def SpoilerEscapedTilde_def SpoilerEscapedFence_def
        Let_def)
qed

theorem EscapeMarkdown_identity_witness:
  "go_exported ''CodeBlock'' \<and>
   \<not> tranclp calls_directly ''CodeBlock'' ''_EscapeMarkdown'' \<and>
   tranclp calls_directly ''CodeBlock'' ''EscapeMarkdown'' \<and>
   go_exported ''MarkdownBlock'' \<and>
   \<not> tranclp calls_directly ''MarkdownBlock'' ''_EscapeMarkdown''"
proof -
  have e: "go_exported ''CodeBlock''" "go_exported ''MarkdownBlock''" by code_simp+
  have "calls_directly ''CodeBlock'' ''WriteCodeBlock''"
    "calls_directly ''WriteCodeBlock'' ''EscapeMarkdown''"
    by code_simp+
  then have "tranclp calls_directly ''CodeBlock'' ''EscapeMarkdown''" by auto
  with e EscapeMarkdown_identity [of "[]" "[]" "[]" "[]" "[]"] show ?thesis by blast
qed

lemma ReplaceAll_Nil: "strings_ReplaceAll [] old new = []"
  by (subst strings_ReplaceAll.simps) simp

lemma ReplaceAll_prefix:
  "old \<noteq> [] \<Longrightarrow> s \<noteq> [] \<Longrightarrow> strings_HasPrefix s old \<Longrightarrow>
   strings_ReplaceAll s old new = new @ strings_ReplaceAll (drop (length old) s) old new"
  by (subst strings_ReplaceAll.simps) simp

lemma ReplaceAll_Cons:
  "old \<noteq> [] \<Longrightarrow> \<not> strings_HasPrefix (c # cs) old \<Longrightarrow>
   strings_ReplaceAll (c # cs) old new = c # strings_ReplaceAll cs old new"
  by (subst strings_ReplaceAll.simps) simp

lemma ReplaceAll_absent:
  "\<not> strings_Contains s old \<Longrightarrow> strings_ReplaceAll s old new = s"
proof (induction s)
  case Nil
  show ?case by (rule ReplaceAll_Nil)
next
  case (Cons c cs)
  then have np: "\<not> strings_HasPrefix (c # cs) old" and nc: "\<not> strings_Contains cs old"
    by (auto split: if_splits)
  from np have "old \<noteq> []" by (auto simp add: strings_HasPrefix_def)
  with np nc Cons.IH show ?case by (simp add: ReplaceAll_Cons)
qed

lemma HasPrefix_fence_iff:
  "strings_HasPrefix s fence \<longleftrightarrow> (\<exists>r. s = backtick # backtick # backtick # r)"
proof
  assume "strings_HasPrefix s fence"
  then have "take (length fence) s = fence" by (simp only: strings_HasPrefix_def)
  then have "s = fence @ drop (length fence) s" by (metis append_take_drop_id)
  then show "\<exists>r. s = backtick # backtick # backtick # r" by auto
next
  assume "\<exists>r. s = backtick # backtick # backtick # r"
  then show "strings_HasPrefix s fence" by (auto simp add: strings_HasPrefix_def)
qed

lemma ReplaceAll_fence_prefix:
  "strings_ReplaceAll (backtick # backtick # backtick # r) fence tildes =
     tilde # tilde # tilde # strings_ReplaceAll r fence tildes"
  by (subst strings_ReplaceAll.simps) (simp add: strings_HasPrefix_def)

lemma ReplaceAll_fence_cases:
  obtains "s = []" "strings_ReplaceAll s fence tildes = []"
  | r where "s = backtick # backtick # backtick # r"
      "strings_ReplaceAll s fence tildes = tilde # tilde # tilde # strings_ReplaceAll r fence tildes"
  | c cs where "s = c # cs" "\<not> strings_HasPrefix s fence"
      "strings_ReplaceAll s fence tildes = c # strings_ReplaceAll cs fence tildes"
proof (cases s)
  case Nil
  then show ?thesis using that(1) by (simp add: ReplaceAll_Nil)
next
  case (Cons c cs)
  show ?thesis
  proof (cases "strings_HasPrefix s fence")
    case True
    then obtain r where "s = backtick # backtick # backtick # r"
      using HasPrefix_fence_iff by blast
    then show ?thesis using that(2) by (simp add: ReplaceAll_fence_prefix)
  next
    case False
    with Cons show ?thesis using that(3) by (simp add: ReplaceAll_Cons)
  qed
qed

lemma ReplaceAll_fence_backtick:
  assumes "strings_ReplaceAll s fence tildes = backtick # r"
  obtains cs where "s = backtick # cs" "r = strings_ReplaceAll cs fence tildes"
proof (cases s rule: ReplaceAll_fence_cases)
  case 1
  with assms show ?thesis by simp
next
  case (2 r')
  with assms show ?thesis by simp
next
  case (3 c cs)
  with assms that show ?thesis by simp
qed

lemma ReplaceAll_fence_no_prefix: "\<not> strings_HasPrefix (strings_ReplaceAll s fence tildes) fence"
proof
  assume "strings_HasPrefix (strings_ReplaceAll s fence tildes) fence"
  then obtain r where r: "strings_ReplaceAll s fence tildes = backtick # backtick # backtick # r"
    using HasPrefix_fence_iff by blast
  then obtain s1 where s1: "s = backtick # s1"
    "backtick # backtick # r = strings_ReplaceAll s1 fence tildes"
    by (rule ReplaceAll_fence_backtick)
  from s1(2) [symmetric] obtain s2 where s2: "s1 = backtick # s2"
    "backtick # r = strings_ReplaceAll s2 fence tildes"
    by (rule ReplaceAll_fence_backtick)
  from s2(2) [symmetric] obtain s3 where s3: "s2 = backtick # s3"
    by (rule ReplaceAll_fence_backtick)
  from s1(1) s2(1) s3 have "s = backtick # backtick # backtick # s3" by simp
  then have "strings_ReplaceAll s fence tildes = tilde # tilde # tilde # strings_ReplaceAll s3 fence tildes"
    by (simp add: ReplaceAll_fence_prefix)
  with r show False by simp
qed

lemma ReplaceAll_fence_clean: "\<not> strings_Contains (strings_ReplaceAll s fence tildes) fence"
proof (induction s rule: length_induct)
  case (1 s)
  show ?case
  proof (cases s rule: ReplaceAll_fence_cases)
    case 1
    then show ?thesis by simp
  next
    case (2 r)
    have "\<not> strings_Contains (strings_ReplaceAll r fence tildes) fence"
      using 1 2(1) by simp
    with 2(2) show ?thesis by (simp add: strings_HasPrefix_def)
  next
    case (3 c cs)
    have "\<not> strings_Contains (strings_ReplaceAll cs fence tildes) fence"
      using 1 3(1) by simp
    moreover have "\<not> strings_HasPrefix (c # strings_ReplaceAll cs fence tildes) fence"
      using ReplaceAll_fence_no_prefix [of s] 3(3) by simp
    ultimately show ?thesis using 3(3) by simp
  qed
qed

lemma ReplaceAll_fence_bytes:
  "list_all2 fence_byte s (strings_ReplaceAll s fence tildes)"
proof (induction s rule: length_induct)
  case (1 s)
  have same: "fence_byte c c" for c by (simp add: fence_byte_def)
  have repl: "fence_byte backtick tilde" by (simp add: fence_byte_def)
  show ?case
  proof (cases s rule: ReplaceAll_fence_cases)
    case 1
    then show ?thesis by simp
  next
    case (2 r)
    have "list_all2 fence_byte r (strings_ReplaceAll r fence tildes)"
      using 1 2(1) by simp
    with 2 repl show ?thesis by simp
  next
    case (3 c cs)
    have "list_all2 fence_byte cs (strings_ReplaceAll cs fence tildes)"
      using 1 3(1) by simp
    with 3 same show ?thesis by simp
  qed
qed

text \<open>
  Claim C10. \<^verbatim>\<open>Spoiler\<close> returns the opener with the heading, the text in which the
  occurrences of the fence are replaced by tildes from left to right, and the closing
  fence. It is a total function: no text makes it fail. The replaced text has the length
  of the text, each of its bytes is the byte of the text or a tilde in the place of a
  backtick, and it contains no fence.
\<close>

theorem Spoiler_replaces_fences:
  "Spoiler heading text =
     fence @ ''spoiler '' @ heading @ [newline] @ strings_ReplaceAll text fence tildes @ [newline] @ fence
   \<and> list_all2 fence_byte text (strings_ReplaceAll text fence tildes)
   \<and> \<not> strings_Contains (strings_ReplaceAll text fence tildes) fence"
proof -
  have "(if strings_Contains text fence then strings_ReplaceAll text fence tildes else text)
      = strings_ReplaceAll text fence tildes"
    by (simp add: ReplaceAll_absent)
  then have "Spoiler heading text =
     fence @ ''spoiler '' @ heading @ [newline] @ strings_ReplaceAll text fence tildes @ [newline] @ fence"
    by (simp add: Spoiler_def WriteSpoiler_def Let_def)
  then show ?thesis
    using ReplaceAll_fence_bytes ReplaceAll_fence_clean by blast
qed

end
